theory Spec2Isabelle
  imports Complex_Main "HOL-Library.Multiset" "HOL-Library.Monad_Syntax"
begin

section \<open>Data model\<close>

text \<open>
  The geometry of distances, hulls and polyline simplification is modelled over the reals: its
  claims depend on comparisons and on the shape of the recursion. The statistics and the
  polygon area are modelled in binary64, the arithmetic of a JavaScript \<^verbatim>\<open>number\<close>, since
  their claims depend on rounding and on \<^verbatim>\<open>Infinity\<close> and \<^verbatim>\<open>NaN\<close>. Elsewhere a value that may
  be \<^verbatim>\<open>undefined\<close> or \<^verbatim>\<open>NaN\<close> is a \<open>real option\<close>, \<open>None\<close> standing for both.

  \<^verbatim>\<open>interface Point { x: number; y: number }\<close> of \<^verbatim>\<open>types.ts\<close>. The fields are
  called \<open>px\<close> and \<open>py\<close>, since \<open>x\<close> and \<open>y\<close> are needed as variable names.
\<close>

record Point =
  px :: real
  py :: real

section \<open>JavaScript numbers (binary64)\<close>

text \<open>
  A \<^verbatim>\<open>number\<close>: a finite value, \<^verbatim>\<open>Infinity\<close>, \<^verbatim>\<open>-Infinity\<close> or \<^verbatim>\<open>NaN\<close>. The two zeros are
  not distinguished; no division by zero is reached in the functions modelled.
\<close>

datatype num = Fin real | PInf | NInf | NaN

text \<open>
  Rounding to the nearest double, ties to the even significand. \<open>pow2 e\<close> is \<open>2\<^sup>e\<close>;
  \<open>rne\<close> rounds a real to the nearest integer, ties to even; \<open>expo x\<close> is the exponent of the
  unit in the last place of \<open>x\<close>: 52 below the binary exponent of \<open>x\<close> for a 53-bit
  significand, and never below \<open>-1074\<close> (gradual underflow). \<open>round64\<close> rounds with an
  unbounded exponent range; \<open>toNum\<close> is the result of an operation whose exact value is
  \<open>x\<close>: the rounded value, or an infinity when that exceeds the largest double
  \<open>(2\<^sup>5\<^sup>3 - 1) * 2\<^sup>9\<^sup>7\<^sup>1\<close>. \<open>isDouble x\<close> says that the real \<open>x\<close> is a finite double.
\<close>

definition pow2 :: "int \<Rightarrow> real" where
  "pow2 e = 2 powr (of_int e)"

definition rne :: "real \<Rightarrow> int" where
  "rne y =
     (let f = \<lfloor>y\<rfloor>; d = y - of_int f in
      if d < 1 / 2 then f else if d > 1 / 2 then f + 1 else if even f then f else f + 1)"

definition expo :: "real \<Rightarrow> int" where
  "expo x = max (\<lfloor>log 2 \<bar>x\<bar>\<rfloor> - 52) (- 1074)"

definition round64 :: "real \<Rightarrow> real" where
  "round64 x =
     (if x = 0 then 0
      else sgn x * (of_int (rne (\<bar>x\<bar> / pow2 (expo x))) * pow2 (expo x)))"

definition maxDouble :: real where
  "maxDouble = (2 ^ 53 - 1) * 2 ^ 971"

definition toNum :: "real \<Rightarrow> num" where
  "toNum x =
     (let r = round64 x in
      if r > maxDouble then PInf else if r < - maxDouble then NInf else Fin r)"

definition isDouble :: "real \<Rightarrow> bool" where
  "isDouble x = (round64 x = x \<and> \<bar>x\<bar> \<le> maxDouble)"

text \<open>
  The operators \<^verbatim>\<open>+\<close>, \<^verbatim>\<open>-\<close>, \<^verbatim>\<open>*\<close>, \<^verbatim>\<open>/\<close>, \<^verbatim>\<open>Math.abs\<close>, \<^verbatim>\<open><\<close> and \<^verbatim>\<open><=\<close> on numbers
  (\<^verbatim>\<open>a > b\<close> is \<open>numLess b a\<close>, \<^verbatim>\<open>a >= b\<close> is \<open>numLe b a\<close>); a comparison with \<^verbatim>\<open>NaN\<close> is
  false.
\<close>

fun fadd :: "num \<Rightarrow> num \<Rightarrow> num" where
  "fadd (Fin x) (Fin y) = toNum (x + y)"
| "fadd NaN b = NaN"
| "fadd a NaN = NaN"
| "fadd PInf NInf = NaN"
| "fadd NInf PInf = NaN"
| "fadd PInf b = PInf"
| "fadd a PInf = PInf"
| "fadd NInf b = NInf"
| "fadd a NInf = NInf"

fun fsub :: "num \<Rightarrow> num \<Rightarrow> num" where
  "fsub (Fin x) (Fin y) = toNum (x - y)"
| "fsub NaN b = NaN"
| "fsub a NaN = NaN"
| "fsub PInf PInf = NaN"
| "fsub NInf NInf = NaN"
| "fsub PInf b = PInf"
| "fsub a NInf = PInf"
| "fsub NInf b = NInf"
| "fsub a PInf = NInf"

fun fmul :: "num \<Rightarrow> num \<Rightarrow> num" where
  "fmul (Fin x) (Fin y) = toNum (x * y)"
| "fmul NaN b = NaN"
| "fmul a NaN = NaN"
| "fmul (Fin x) PInf = (if x = 0 then NaN else if 0 < x then PInf else NInf)"
| "fmul (Fin x) NInf = (if x = 0 then NaN else if 0 < x then NInf else PInf)"
| "fmul PInf (Fin y) = (if y = 0 then NaN else if 0 < y then PInf else NInf)"
| "fmul NInf (Fin y) = (if y = 0 then NaN else if 0 < y then NInf else PInf)"
| "fmul PInf PInf = PInf"
| "fmul NInf NInf = PInf"
| "fmul PInf NInf = NInf"
| "fmul NInf PInf = NInf"

fun fdiv :: "num \<Rightarrow> num \<Rightarrow> num" where
  "fdiv (Fin x) (Fin y) =
     (if y = 0 then (if x = 0 then NaN else if 0 < x then PInf else NInf) else toNum (x / y))"
| "fdiv NaN b = NaN"
| "fdiv a NaN = NaN"
| "fdiv (Fin x) PInf = Fin 0"
| "fdiv (Fin x) NInf = Fin 0"
| "fdiv PInf (Fin y) = (if 0 \<le> y then PInf else NInf)"
| "fdiv NInf (Fin y) = (if 0 \<le> y then NInf else PInf)"
| "fdiv PInf b = NaN"
| "fdiv NInf b = NaN"

fun fabs :: "num \<Rightarrow> num" where
  "fabs (Fin x) = Fin \<bar>x\<bar>"
| "fabs PInf = PInf"
| "fabs NInf = PInf"
| "fabs NaN = NaN"

fun numLess :: "num \<Rightarrow> num \<Rightarrow> bool" where
  "numLess (Fin x) (Fin y) = (x < y)"
| "numLess NaN b = False"
| "numLess a NaN = False"
| "numLess a NInf = False"
| "numLess PInf b = False"
| "numLess NInf b = True"
| "numLess a PInf = True"

fun numLe :: "num \<Rightarrow> num \<Rightarrow> bool" where
  "numLe (Fin x) (Fin y) = (x \<le> y)"
| "numLe NaN b = False"
| "numLe a NaN = False"
| "numLe NInf b = True"
| "numLe a PInf = True"
| "numLe a NInf = False"
| "numLe PInf b = False"

section \<open>Perpendicular distance\<close>

text \<open>
  \<^verbatim>\<open>ColorAlgorithm.perpDist\<close> (logic implementation); \<^verbatim>\<open>Math.hypot(a, b)\<close> is
  \<open>sqrt (a\<^sup>2 + b\<^sup>2)\<close>.
\<close>

definition hypot :: "real \<Rightarrow> real \<Rightarrow> real" where
  "hypot a b = sqrt (a\<^sup>2 + b\<^sup>2)"

definition perpDist :: "Point \<Rightarrow> Point \<Rightarrow> Point \<Rightarrow> real" where
  "perpDist p p1 p2 =
     (let dx = px p2 - px p1; dy = py p2 - py p1 in
      if dx = 0 \<and> dy = 0 then hypot (px p - px p1) (py p - py p1)
      else
        let num = \<bar>dy * px p - dx * py p + px p2 * py p1 - py p2 * px p1\<bar>;
            den = hypot dx dy
        in num / den)"

text \<open>
  \<^verbatim>\<open>ColorAlgorithm.perpendicularDistance\<close> (AI implementation). The optional parameter
  \<^verbatim>\<open>normalLength\<close> is an option; \<^verbatim>\<open>??\<close> replaces only a missing value, so a
  length of 0 that was passed in stays 0.
\<close>

definition perpendicularDistance :: "Point \<Rightarrow> Point \<Rightarrow> Point \<Rightarrow> real option \<Rightarrow> real" where
  "perpendicularDistance p p1 p2 normalLength =
     (let area = \<bar>0.5 * (px p1 * py p2 + px p2 * py p + px p * py p1
                          - px p2 * py p1 - px p * py p2 - px p1 * py p)\<bar>;
          bottom = (case normalLength of
                      Some l \<Rightarrow> l
                    | None \<Rightarrow> sqrt ((px p1 - px p2)\<^sup>2 + (py p1 - py p2)\<^sup>2))
      in if bottom = 0 then 0 else (area / bottom) * 2)"

text \<open>The length \<^verbatim>\<open>simplifyRDP\<close> of the AI implementation computes once and passes in.\<close>

definition normalLength_of :: "Point \<Rightarrow> Point \<Rightarrow> real" where
  "normalLength_of p1 p2 = sqrt ((px p1 - px p2)\<^sup>2 + (py p1 - py p2)\<^sup>2)"

section \<open>Polygon area\<close>

text \<open>
  \<^verbatim>\<open>Utils.calculatePolygonArea\<close>, in binary64: the loop adds one shoelace term for each
  index \<open>i\<close>, with \<open>j = (i + 1) % n\<close>, every product, difference and sum being rounded, and
  the function returns \<^verbatim>\<open>Math.abs(a / 2)\<close>. The value of the accumulator \<open>a\<close> after the
  loop is \<open>shoelaceSum\<close>. The coordinates of the points are taken to be doubles.
\<close>

definition shoelaceSum :: "Point list \<Rightarrow> num" where
  "shoelaceSum points =
     (let n = length points in
      foldl (\<lambda>a i. let j = (i + 1) mod n in
                     fadd a (fsub (fmul (Fin (px (points ! i))) (Fin (py (points ! j))))
                                  (fmul (Fin (px (points ! j))) (Fin (py (points ! i))))))
            (Fin 0) [0..<n])"

definition calculatePolygonArea :: "Point list \<Rightarrow> num" where
  "calculatePolygonArea points = fabs (fdiv (shoelaceSum points) (Fin 2))"

text \<open>
  For the statements and proofs: the body of the loop; the same sum in exact real
  arithmetic, with its summand; and point lists with integer coordinates of magnitude at
  most \<open>B\<close> that are short enough for every value of the loop to stay below \<open>2\<^sup>5\<^sup>3\<close>, so
  that no operation of the loop rounds.
\<close>

definition areaStep :: "Point list \<Rightarrow> num \<Rightarrow> nat \<Rightarrow> num" where
  "areaStep points a i =
     (let j = (i + 1) mod length points in
      fadd a (fsub (fmul (Fin (px (points ! i))) (Fin (py (points ! j))))
                   (fmul (Fin (px (points ! j))) (Fin (py (points ! i))))))"

definition exactShoelaceSum :: "Point list \<Rightarrow> real" where
  "exactShoelaceSum points =
     (let n = length points in
      foldl (\<lambda>a i. let j = (i + 1) mod n in
                     a + (px (points ! i) * py (points ! j) - px (points ! j) * py (points ! i)))
            0 [0..<n])"

definition cross2 :: "Point \<Rightarrow> Point \<Rightarrow> real" where
  "cross2 a b = px a * py b - px b * py a"

definition smallInts :: "real \<Rightarrow> Point list \<Rightarrow> bool" where
  "smallInts B points =
     ((\<forall>p \<in> set points. px p \<in> \<int> \<and> py p \<in> \<int> \<and> \<bar>px p\<bar> \<le> B \<and> \<bar>py p\<bar> \<le> B)
      \<and> real (length points) * (2 * B * B) \<le> 2 ^ 52)"

section \<open>Annotation records and statistics\<close>

text \<open>\<^verbatim>\<open>Box\<close>, \<^verbatim>\<open>AnnotationData\<close> and \<^verbatim>\<open>AnalysisStats\<close> of \<^verbatim>\<open>types.ts\<close>. An optional field is an
  option, \<^verbatim>\<open>box: null\<close> is \<open>None\<close>, and \<^verbatim>\<open>obstructionPercent\<close> is a JavaScript number.\<close>

record Box =
  bx :: real
  by_ :: real
  bw :: real
  bh :: real

record AnnotationData =
  time :: real
  area :: string
  areaCategory :: "string option"
  polygon :: "Point list"
  box :: "Box option"
  srcDataUrl :: string
  obs_pct :: "real option"
  v_height :: "real option"
  o_width :: "real option"

record AnalysisStats =
  smallest :: AnnotationData
  largest :: AnnotationData
  obstructionPercent :: num
  voteScore :: nat
  error :: "string option"

text \<open>
  \<^verbatim>\<open>Array.prototype.sort\<close> with a comparator: the sort is stable, an element goes before
  the first element it does not compare greater than. For a comparator that is a total
  preorder every stable sort gives this list.
\<close>

fun insort_by :: "('a \<Rightarrow> 'a \<Rightarrow> real) \<Rightarrow> 'a \<Rightarrow> 'a list \<Rightarrow> 'a list" where
  "insort_by cmp a [] = [a]"
| "insort_by cmp a (b # bs) = (if cmp a b \<le> 0 then a # b # bs else b # insort_by cmp a bs)"

definition sort_by :: "('a \<Rightarrow> 'a \<Rightarrow> real) \<Rightarrow> 'a list \<Rightarrow> 'a list" where
  "sort_by cmp xs = foldr (insort_by cmp) xs []"

text \<open>The error message of \<^verbatim>\<open>calculateStats\<close>, as the bytes of its UTF-8 encoding.\<close>

definition statsErrorMessage :: string where
  "statsErrorMessage =
     [CHR 0xE9, CHR 0x9C, CHR 0x80, CHR 0xE8, CHR 0xA6, CHR 0x81, CHR 0xE8, CHR 0x87, CHR 0xB3,
      CHR 0xE5, CHR 0xB0, CHR 0x91, CHR 0xE5, CHR 0x85, CHR 0xA9, CHR 0xE7, CHR 0xAD, CHR 0x86,
      CHR 0xE6, CHR 0x9C, CHR 0x89, CHR 0xE6, CHR 0x95, CHR 0x88, CHR 0xE6, CHR 0x95, CHR 0xB8,
      CHR 0xE6, CHR 0x93, CHR 0x9A, CHR 0xE6, CHR 0x89, CHR 0x8D, CHR 0xE8, CHR 0x83, CHR 0xBD,
      CHR 0xE5, CHR 0x88, CHR 0x86, CHR 0xE6, CHR 0x9E, CHR 0x90, CHR 0xEF, CHR 0xBC, CHR 0x81]"

text \<open>The literal record \<^verbatim>\<open>calculateStats\<close> uses when no record is valid.\<close>

definition placeholderData :: AnnotationData where
  "placeholderData =
     \<lparr>time = 0, area = ''0'', areaCategory = Some ''N/A'', polygon = [], box = None,
      srcDataUrl = '''', obs_pct = Some 0, v_height = None, o_width = None\<rparr>"

text \<open>
  \<^verbatim>\<open>SummaryManager.calculateStats\<close>. The builtin \<^verbatim>\<open>parseFloat\<close> is a parameter. The map is
  the list of its entries in insertion order, so that \<^verbatim>\<open>annotationsMap.values()\<close> is
  \<open>map snd\<close>. \<open>isValid\<close> is the filter predicate
  \<^verbatim>\<open>item.area && parseFloat(item.area) > 0\<close>, \<open>validData\<close> the filtered array, \<open>cmpArea\<close>
  the comparator \<^verbatim>\<open>parseFloat(a.area) - parseFloat(b.area)\<close>. \<^verbatim>\<open>sort\<close> looks only at the
  sign of what the comparator returns and takes \<^verbatim>\<open>NaN\<close> as 0: \<open>cmpValue\<close> is a real
  of that sign.
\<close>

definition cmpValue :: "num \<Rightarrow> real" where
  "cmpValue v = (case v of Fin r \<Rightarrow> r | PInf \<Rightarrow> 1 | NInf \<Rightarrow> - 1 | NaN \<Rightarrow> 0)"

definition isValid :: "(string \<Rightarrow> num) \<Rightarrow> AnnotationData \<Rightarrow> bool" where
  "isValid parseFloat item = (area item \<noteq> [] \<and> numLess (Fin 0) (parseFloat (area item)))"

definition validData :: "(string \<Rightarrow> num) \<Rightarrow> (real \<times> AnnotationData) list \<Rightarrow> AnnotationData list" where
  "validData parseFloat annotationsMap = filter (isValid parseFloat) (map snd annotationsMap)"

definition cmpArea :: "(string \<Rightarrow> num) \<Rightarrow> AnnotationData \<Rightarrow> AnnotationData \<Rightarrow> real" where
  "cmpArea parseFloat a b = cmpValue (fsub (parseFloat (area a)) (parseFloat (area b)))"

definition calculateStats :: "(string \<Rightarrow> num) \<Rightarrow> (real \<times> AnnotationData) list \<Rightarrow> AnalysisStats" where
  "calculateStats parseFloat annotationsMap =
     (let vd = validData parseFloat annotationsMap in
      if length vd < 2 then
        let singleData = (if length vd = 1 then vd ! 0 else placeholderData) in
        \<lparr>smallest = singleData, largest = singleData, obstructionPercent = Fin 0,
         voteScore = 0, error = Some statsErrorMessage\<rparr>
      else
        let sorted = sort_by (cmpArea parseFloat) vd;
            smallest = sorted ! 0;
            largest = sorted ! (length sorted - 1);
            minArea = parseFloat (area smallest);
            maxArea = parseFloat (area largest);
            obstructionPercent =
              (if numLess (Fin 0) maxArea
               then fmul (fdiv (fsub maxArea minArea) maxArea) (Fin 100)
               else Fin 0);
            voteScore =
              (if numLess (Fin 75) obstructionPercent then 2
               else if numLe (Fin 50) obstructionPercent then 1 else 0)
        in \<lparr>smallest = smallest, largest = largest, obstructionPercent = obstructionPercent,
            voteScore = voteScore, error = None\<rparr>)"

text \<open>
  An instance of \<^verbatim>\<open>parseFloat\<close> for the examples: it reads \<^verbatim>\<open>Infinity\<close>, or an unsigned
  decimal numeral, digits with an optional fraction, at the start of the string, and
  returns the double nearest to the number written.
\<close>

definition isDigit :: "char \<Rightarrow> bool" where
  "isDigit c = (48 \<le> (of_char c :: nat) \<and> (of_char c :: nat) \<le> 57)"

definition digitVal :: "char \<Rightarrow> real" where
  "digitVal c = real ((of_char c :: nat) - 48)"

definition parseDecimal :: "string \<Rightarrow> num" where
  "parseDecimal s =
     (if take 8 s = ''Infinity'' then PInf
      else
        let ip = takeWhile isDigit s;
            rest = dropWhile isDigit s;
            fp = (case rest of c # cs \<Rightarrow> if c = CHR ''.'' then takeWhile isDigit cs else [] | [] \<Rightarrow> [])
        in if ip = [] \<and> fp = [] then NaN
           else toNum (foldl (\<lambda>a c. 10 * a + digitVal c) 0 ip
                       + foldr (\<lambda>c a. (digitVal c + a) / 10) fp 0))"

text \<open>
  For the statements and proofs: "the parsed area is greater than 0"; "every parsed area
  that is finite is a double", which is true of the results of \<^verbatim>\<open>parseFloat\<close>; the same
  with no infinite parsed area; a positive double or \<^verbatim>\<open>Infinity\<close>; and the order of two
  records by parsed area.
\<close>

definition positiveArea :: "(string \<Rightarrow> num) \<Rightarrow> AnnotationData \<Rightarrow> bool" where
  "positiveArea parseFloat r = numLess (Fin 0) (parseFloat (area r))"

definition doubleAreas :: "(string \<Rightarrow> num) \<Rightarrow> (real \<times> AnnotationData) list \<Rightarrow> bool" where
  "doubleAreas parseFloat annotationsMap =
     (\<forall>r \<in> set (map snd annotationsMap). \<forall>x. parseFloat (area r) = Fin x \<longrightarrow> isDouble x)"

definition finiteAreas :: "(string \<Rightarrow> num) \<Rightarrow> (real \<times> AnnotationData) list \<Rightarrow> bool" where
  "finiteAreas parseFloat annotationsMap =
     (\<forall>r \<in> set (map snd annotationsMap).
        case parseFloat (area r) of Fin x \<Rightarrow> isDouble x | NaN \<Rightarrow> True | PInf \<Rightarrow> False | NInf \<Rightarrow> False)"

definition posDouble :: "num \<Rightarrow> bool" where
  "posDouble a = (a = PInf \<or> (\<exists>u. a = Fin u \<and> 0 < u \<and> isDouble u))"

definition leArea :: "(string \<Rightarrow> num) \<Rightarrow> AnnotationData \<Rightarrow> AnnotationData \<Rightarrow> bool" where
  "leArea parseFloat a b = numLe (parseFloat (area a)) (parseFloat (area b))"

text \<open>
  A record with a given time and area string, for the examples.
\<close>

definition sampleRecord :: "real \<Rightarrow> string \<Rightarrow> AnnotationData" where
  "sampleRecord t a =
     \<lparr>time = t, area = a, areaCategory = None, polygon = [], box = None,
      srcDataUrl = [], obs_pct = None, v_height = None, o_width = None\<rparr>"

section \<open>Polyline simplification (Ramer-Douglas-Peucker)\<close>

text \<open>
  The search loop of both \<^verbatim>\<open>simplifyRDP\<close> functions:
  \<^verbatim>\<open>for (let i = 1; i < end; i++) { const d = ...; if (d > dmax) { index = i; dmax = d; } }\<close>
  from \<open>dmax = 0\<close>, \<open>index = 0\<close>, with the distance to the chord as the parameter \<open>d\<close>.
\<close>

definition farthest :: "(Point \<Rightarrow> real) \<Rightarrow> Point list \<Rightarrow> real \<times> nat" where
  "farthest d points =
     foldl (\<lambda>(dmax, index) i. let dd = d (points ! i) in
                                 if dd > dmax then (dd, i) else (dmax, index))
           (0, 0) [1..<length points - 1]"

text \<open>
  \<^verbatim>\<open>ColorAlgorithm.simplifyRDP\<close> of the logic implementation. The recursion is not
  bounded by the code itself, so the function is defined in the option monad: \<open>None\<close> is a
  call that does not return (the JavaScript call overflows the stack).
  \<^verbatim>\<open>points.slice(0, index + 1)\<close> is \<open>take (index + 1)\<close>, \<^verbatim>\<open>points.slice(index, end + 1)\<close>
  is \<open>drop index (take (end + 1) points)\<close>, and \<^verbatim>\<open>res1.slice(0, res1.length - 1)\<close> drops
  the last element of \<open>res1\<close>.
\<close>

partial_function (option) simplifyRDP :: "Point list \<Rightarrow> real \<Rightarrow> Point list option" where
  "simplifyRDP points epsilon =
     (if length points < 3 then Some points
      else
        let e = length points - 1;
            (dmax, index) = farthest (\<lambda>p. perpDist p (points ! 0) (points ! e)) points
        in if dmax > epsilon then
             do { res1 \<leftarrow> simplifyRDP (take (index + 1) points) epsilon;
                  res2 \<leftarrow> simplifyRDP (drop index (take (e + 1) points)) epsilon;
                  Some (take (length res1 - 1) res1 @ res2) }
           else Some [points ! 0, points ! e])"

text \<open>\<^verbatim>\<open>ColorAlgorithm.simplifyRDP\<close> of the AI implementation, with the chord length computed once.\<close>

partial_function (option) simplifyRDP_AI :: "Point list \<Rightarrow> real \<Rightarrow> Point list option" where
  "simplifyRDP_AI points epsilon =
     (if length points \<le> 2 then Some points
      else
        let e = length points - 1;
            p1 = points ! 0;
            p2 = points ! e;
            normalLength = sqrt ((px p1 - px p2)\<^sup>2 + (py p1 - py p2)\<^sup>2);
            (dmax, index) = farthest (\<lambda>p. perpendicularDistance p p1 p2 (Some normalLength)) points
        in if dmax > epsilon then
             do { recResults1 \<leftarrow> simplifyRDP_AI (take (index + 1) points) epsilon;
                  recResults2 \<leftarrow> simplifyRDP_AI (drop index points) epsilon;
                  Some (take (length recResults1 - 1) recResults1 @ recResults2) }
           else Some [p1, p2])"

text \<open>
  For the proofs: one step of the search loop, the invariant of the loop (the index is 0 or
  lies strictly between the first and the last index, and it is not 0 once \<open>dmax\<close> is
  positive), the property that a result keeps the endpoints of its input, and three
  collinear points.
\<close>

definition farStep :: "(Point \<Rightarrow> real) \<Rightarrow> Point list \<Rightarrow> real \<times> nat \<Rightarrow> nat \<Rightarrow> real \<times> nat" where
  "farStep d points = (\<lambda>(dmax, index) i. let dd = d (points ! i) in
                                 if dd > dmax then (dd, i) else (dmax, index))"

definition farInv :: "nat \<Rightarrow> real \<times> nat \<Rightarrow> bool" where
  "farInv e s = (0 \<le> fst s \<and> (snd s = 0 \<or> (1 \<le> snd s \<and> snd s < e)) \<and> (0 < fst s \<longrightarrow> 1 \<le> snd s))"

definition keepsEnds :: "Point list \<Rightarrow> Point list \<Rightarrow> bool" where
  "keepsEnds points r =
     ((2 \<le> length points \<longrightarrow> 2 \<le> length r)
      \<and> (points \<noteq> [] \<longrightarrow> r \<noteq> [] \<and> hd r = hd points \<and> last r = last points))"

definition collinear3 :: "Point list" where
  "collinear3 = [\<lparr>px = 0, py = 0\<rparr>, \<lparr>px = 1, py = 0\<rparr>, \<lparr>px = 2, py = 0\<rparr>]"

section \<open>Convex hull\<close>

text \<open>
  \<^verbatim>\<open>convexHull\<close> sorts the array it is given, so arrays live in a store: a list of
  arrays, an array reference being an index into it, and a new array being appended. The
  function takes the store and the reference \<open>points\<close> and returns the store after the
  call with the reference it returns.
\<close>

type_synonym store = "Point list list"

definition cross :: "Point \<Rightarrow> Point \<Rightarrow> Point \<Rightarrow> real" where
  "cross o' a b = (px a - px o') * (py b - py o') - (py a - py o') * (px b - px o')"

text \<open>
  The inner loop \<^verbatim>\<open>while (st.length >= 2 && cross(st[st.length - 2], st[st.length - 1], p) <= 0) st.pop()\<close>
  and the loop around it, which pushes \<open>p\<close> after the pops; the top of the stack is the
  end of the list.
\<close>

function popWhile :: "Point \<Rightarrow> Point list \<Rightarrow> Point list" where
  "popWhile p st =
     (if length st \<ge> 2 \<and> cross (st ! (length st - 2)) (st ! (length st - 1)) p \<le> 0
      then popWhile p (butlast st) else st)"
  by pat_completeness auto
termination
  by (relation "measure (\<lambda>(p, st). length st)") auto

definition chain :: "Point list \<Rightarrow> Point list" where
  "chain points = foldl (\<lambda>st p. popWhile p st @ [p]) [] points"

text \<open>
  The comparators \<^verbatim>\<open>(a, b) => a.x - b.x || a.y - b.y\<close> of the logic implementation and
  \<^verbatim>\<open>(a, b) => (a.x === b.x ? a.y - b.y : a.x - b.x)\<close> of the AI implementation.
\<close>

definition cmpLogic :: "Point \<Rightarrow> Point \<Rightarrow> real" where
  "cmpLogic a b = (if px a - px b \<noteq> 0 then px a - px b else py a - py b)"

definition cmpAI :: "Point \<Rightarrow> Point \<Rightarrow> real" where
  "cmpAI a b = (if px a = px b then py a - py b else px a - px b)"

text \<open>
  \<^verbatim>\<open>ColorAlgorithm.convexHull\<close>, logic and AI implementation. With fewer than three
  points the argument itself is returned. \<^verbatim>\<open>pop()\<close> on the finished chains is
  \<open>butlast\<close>, and \<^verbatim>\<open>lower.concat(upper)\<close> is a new array.
\<close>

definition convexHull :: "store \<Rightarrow> nat \<Rightarrow> store \<times> nat" where
  "convexHull h points =
     (if length (h ! points) < 3 then (h, points)
      else
        let h1 = h[points := sort_by cmpLogic (h ! points)];
            lower = chain (h1 ! points);
            upper = chain (rev (h1 ! points))
        in (h1 @ [butlast lower @ butlast upper], length h1))"

definition convexHull_AI :: "store \<Rightarrow> nat \<Rightarrow> store \<times> nat" where
  "convexHull_AI h points =
     (if length (h ! points) < 3 then (h, points)
      else
        let h1 = h[points := sort_by cmpAI (h ! points)];
            lower = chain (h1 ! points);
            upper = chain (rev (h1 ! points))
        in (h1 @ [butlast lower @ butlast upper], length h1))"

text \<open>The order "ascending by x, ties broken by y".\<close>

definition lexLe :: "Point \<Rightarrow> Point \<Rightarrow> bool" where
  "lexLe p q = (px p < px q \<or> (px p = px q \<and> py p \<le> py q))"

section \<open>Whole-frame scan\<close>

text \<open>
  \<^verbatim>\<open>ImageData\<close> and the result object of \<^verbatim>\<open>scanFrame\<close>; the fields are prefixed, since
  \<open>width\<close>, \<open>height\<close>, \<open>data\<close>, \<open>area\<close> and \<open>polygon\<close> are used elsewhere.
\<close>

record ImageData =
  img_width :: nat
  img_height :: nat
  img_data :: "nat list"

record ScanResult =
  scanArea :: real
  scanPolygon :: "Point list"

definition MODEL_SIZE :: nat where
  "MODEL_SIZE = 256"

text \<open>
  \<^verbatim>\<open>extractEdgesFromMask\<close>: a read of the typed array beyond its length is
  \<^verbatim>\<open>undefined\<close>, which is falsy.
\<close>

definition maskAt :: "bool list \<Rightarrow> nat \<Rightarrow> bool" where
  "maskAt data i = (i < length data \<and> data ! i)"

definition extractEdgesFromMask :: "bool list \<Rightarrow> nat \<Rightarrow> nat \<Rightarrow> Point list" where
  "extractEdgesFromMask data width height =
     concat (map (\<lambda>y.
       concat (map (\<lambda>x.
         if maskAt data (y * width + x)
            \<and> (\<not> maskAt data ((y - 1) * width + x)
               \<or> \<not> maskAt data ((y + 1) * width + x)
               \<or> \<not> maskAt data (y * width + x - 1)
               \<or> \<not> maskAt data (y * width + x + 1))
         then [\<lparr>px = real x, py = real y\<rparr>] else [])
       [1..<width - 1]))
     [1..<height - 1])"

text \<open>The counting loop of \<^verbatim>\<open>scanFrame\<close>.\<close>

definition countWhite :: "bool list \<Rightarrow> nat" where
  "countWhite maskData = foldl (\<lambda>whitePixels m. if m then whitePixels + 1 else whitePixels) 0 maskData"

text \<open>
  \<^verbatim>\<open>parseFloat(v.toFixed(1))\<close>: \<^verbatim>\<open>toFixed(1)\<close> takes the integer \<open>n\<close> for which \<open>n / 10\<close>
  is nearest to the value, the larger one of two, after taking the sign off; from
  \<open>10\<^sup>2\<^sup>1\<close> on it prints the number itself.
\<close>

definition toFixed1 :: "real \<Rightarrow> real" where
  "toFixed1 v =
     (if \<bar>v\<bar> \<ge> 10 ^ 21 then v
      else if v < 0 then - (of_int \<lfloor>- v * 10 + 1 / 2\<rfloor> / 10)
      else of_int \<lfloor>v * 10 + 1 / 2\<rfloor> / 10)"

text \<open>
  \<^verbatim>\<open>ColorAlgorithm.scanFrame\<close> (AI implementation), from the mask on. The classifier with its
  binarisation at 0.5, \<^verbatim>\<open>model.predict(...).squeeze().greater(0.5).dataSync()\<close>, is the
  parameter \<open>predictMask\<close>; a failure to load the model is outside the model. The result
  is an option because \<^verbatim>\<open>simplifyRDP\<close> is.
\<close>

definition scanFrame :: "(ImageData \<Rightarrow> bool list) \<Rightarrow> ImageData \<Rightarrow> ScanResult option" where
  "scanFrame predictMask imageData =
     (let maskData = predictMask imageData;
          scaleX = real (img_width imageData) / real MODEL_SIZE;
          scaleY = real (img_height imageData) / real MODEL_SIZE;
          whitePixels = countWhite maskData;
          realArea = real whitePixels * scaleX * scaleY
      in do {
           originalSizePoints \<leftarrow>
             (if whitePixels > 20 then
                let edgePoints = extractEdgesFromMask maskData MODEL_SIZE MODEL_SIZE in
                if length edgePoints > 0 then
                  let (h, hullPoints) = convexHull_AI [edgePoints] 0 in
                  simplifyRDP_AI
                    (map (\<lambda>p. \<lparr>px = px p * scaleX, py = py p * scaleY\<rparr>) (h ! hullPoints)) 3
                else Some []
              else Some []);
           Some \<lparr>scanArea = toFixed1 realArea, scanPolygon = originalSizePoints\<rparr>
         })"

text \<open>A classifier that answers with a fixed mask, for the examples; and the polygon branch
  of \<^verbatim>\<open>scanFrame\<close>, named for the proofs.\<close>

definition fixedMask :: "bool list \<Rightarrow> ImageData \<Rightarrow> bool list" where
  "fixedMask m imageData = m"

definition scanPipeline :: "bool list \<Rightarrow> real \<Rightarrow> real \<Rightarrow> Point list option" where
  "scanPipeline maskData scaleX scaleY =
     (let edgePoints = extractEdgesFromMask maskData MODEL_SIZE MODEL_SIZE;
          (h, hullPoints) = convexHull_AI [edgePoints] 0
      in simplifyRDP_AI (map (\<lambda>p. \<lparr>px = px p * scaleX, py = py p * scaleY\<rparr>) (h ! hullPoints)) 3)"

section \<open>Region growing\<close>

text \<open>
  \<^verbatim>\<open>ColorAlgorithm.colorMatch\<close>. An argument read out of range is \<^verbatim>\<open>undefined\<close>; the
  distance is then \<^verbatim>\<open>NaN\<close> and the comparison false.
\<close>

definition colorMatch ::
  "real option \<Rightarrow> real option \<Rightarrow> real option \<Rightarrow> real option \<Rightarrow> real option \<Rightarrow> real option
     \<Rightarrow> real \<Rightarrow> bool" where
  "colorMatch r g b tr tg tb tol =
     (if r = None \<or> g = None \<or> b = None \<or> tr = None \<or> tg = None \<or> tb = None then False
      else
        let dist = sqrt ((the r - the tr)\<^sup>2 + (the g - the tg)\<^sup>2 + (the b - the tb)\<^sup>2)
        in dist \<le> tol)"

text \<open>
  \<^verbatim>\<open>data[i]\<close> on the \<^verbatim>\<open>Uint8ClampedArray\<close> (bytes, as naturals) and \<^verbatim>\<open>target[i]\<close>;
  \<^verbatim>\<open>getIndex\<close>; and the call of \<^verbatim>\<open>colorMatch\<close> on the three channels at a pixel, which
  \<^verbatim>\<open>floodFill\<close> writes out three times. Pixel coordinates are integers:
  \<^verbatim>\<open>findBoundary\<close> rounds the seed before the call.
\<close>

definition byteAt :: "nat list \<Rightarrow> int \<Rightarrow> real option" where
  "byteAt data i = (if 0 \<le> i \<and> nat i < length data then Some (real (data ! nat i)) else None)"

definition numAt :: "real list \<Rightarrow> nat \<Rightarrow> real option" where
  "numAt target i = (if i < length target then Some (target ! i) else None)"

definition getIndex :: "int \<Rightarrow> int \<Rightarrow> int \<Rightarrow> int" where
  "getIndex width x y = (y * width + x) * 4"

definition pixelMatch :: "nat list \<Rightarrow> int \<Rightarrow> real list \<Rightarrow> real \<Rightarrow> int \<Rightarrow> int \<Rightarrow> bool" where
  "pixelMatch data width target tol x y =
     (let idx = getIndex width x y in
      colorMatch (byteAt data idx) (byteAt data (idx + 1)) (byteAt data (idx + 2))
        (numAt target 0) (numAt target 1) (numAt target 2) tol)"

text \<open>
  \<^verbatim>\<open>visited\<close> is a \<^verbatim>\<open>Set\<close> of keys \<^verbatim>\<open>"x,y"\<close>: the list of its elements in insertion
  order, \<^verbatim>\<open>visited.add\<close> being \<open>setAdd\<close>.
\<close>

definition setAdd :: "(int \<times> int) list \<Rightarrow> int \<times> int \<Rightarrow> (int \<times> int) list" where
  "setAdd visited k = (if k \<in> set visited then visited else visited @ [k])"

text \<open>
  The seed search of \<^verbatim>\<open>floodFill\<close>, on the state \<open>(start, visited, queue)\<close>. \<open>searchRow\<close>
  is the inner loop over \<open>x\<close>, which stops at the first match; \<open>searchWindow\<close> is the outer
  loop over \<open>y\<close>, which runs the inner loop and then stops on
  \<^verbatim>\<open>if (queue.length > 0) break\<close>.
\<close>

type_synonym fillState = "(int \<times> int) \<times> (int \<times> int) list \<times> (int \<times> int) list"

fun searchRow ::
  "nat list \<Rightarrow> int \<Rightarrow> int \<Rightarrow> real list \<Rightarrow> real \<Rightarrow> int \<Rightarrow> int list \<Rightarrow> fillState \<Rightarrow> fillState" where
  "searchRow data width height target tol y [] s = s"
| "searchRow data width height target tol y (x # xs) (start, visited, queue) =
     (if x \<ge> 0 \<and> x < width \<and> y \<ge> 0 \<and> y < height \<and> pixelMatch data width target tol x y
      then ((x, y), setAdd visited (x, y), queue @ [(x, y)])
      else searchRow data width height target tol y xs (start, visited, queue))"

fun searchWindow ::
  "nat list \<Rightarrow> int \<Rightarrow> int \<Rightarrow> real list \<Rightarrow> real \<Rightarrow> int list \<Rightarrow> int list \<Rightarrow> fillState \<Rightarrow> fillState" where
  "searchWindow data width height target tol [] xs s = s"
| "searchWindow data width height target tol (y # ys) xs s =
     (case searchRow data width height target tol y xs s of
        (start, visited, queue) \<Rightarrow>
          if length queue > 0 then (start, visited, queue)
          else searchWindow data width height target tol ys xs (start, visited, queue))"

text \<open>
  The breadth-first loop: \<open>visitNeighbor\<close> is the body of the loop over the four
  neighbours, \<open>bfs\<close> the \<^verbatim>\<open>while (queue.length > 0)\<close> loop, \<^verbatim>\<open>queue.shift()\<close> taking
  the head. It terminates because each round either marks a new pixel of the
  \<open>width\<close> by \<open>height\<close> grid as visited or shortens the queue.
\<close>

definition visitNeighbor ::
  "nat list \<Rightarrow> int \<Rightarrow> int \<Rightarrow> real list \<Rightarrow> real
     \<Rightarrow> (int \<times> int) list \<times> (int \<times> int) list \<Rightarrow> int \<times> int
     \<Rightarrow> (int \<times> int) list \<times> (int \<times> int) list" where
  "visitNeighbor data width height target tol s n =
     (case (s, n) of ((visited, queue), (nx, ny)) \<Rightarrow>
        if nx \<ge> 0 \<and> nx < width \<and> ny \<ge> 0 \<and> ny < height \<and> (nx, ny) \<notin> set visited
           \<and> pixelMatch data width target tol nx ny
        then (setAdd visited (nx, ny), queue @ [(nx, ny)])
        else (visited, queue))"

definition grid :: "int \<Rightarrow> int \<Rightarrow> (int \<times> int) set" where
  "grid width height = {0..<width} \<times> {0..<height}"

function bfs ::
  "nat list \<Rightarrow> int \<Rightarrow> int \<Rightarrow> real list \<Rightarrow> real
     \<Rightarrow> (int \<times> int) list \<Rightarrow> (int \<times> int) list \<Rightarrow> (int \<times> int) list" where
  "bfs data width height target tol visited [] = visited"
| "bfs data width height target tol visited ((x, y) # queue) =
     (case foldl (visitNeighbor data width height target tol) (visited, queue)
             [(x, y - 1), (x, y + 1), (x - 1, y), (x + 1, y)] of
        (visited', queue') \<Rightarrow> bfs data width height target tol visited' queue')"
  by pat_completeness auto
termination
proof (relation "inv_image (less_than <*lex*> less_than)
    (\<lambda>(data, width, height, target, tol, visited, queue).
       (card (grid width height - set visited), length queue))", goal_cases)
  case 1
  show ?case by (intro wf_inv_image wf_lex_prod wf_less_than)
next
  case (2 data width height target tol visited x y queue visited' queue')
  have step: "set v \<subseteq> set (fst (visitNeighbor data width height target tol (v, q) n))
      \<and> (visitNeighbor data width height target tol (v, q) n = (v, q)
          \<or> (n \<in> grid width height \<and> n \<notin> set v
              \<and> n \<in> set (fst (visitNeighbor data width height target tol (v, q) n))))"
    for v q n
    by (cases n) (auto simp: visitNeighbor_def setAdd_def grid_def)
  have run: "set v \<subseteq> set (fst (foldl (visitNeighbor data width height target tol) (v, q) ns))
      \<and> (foldl (visitNeighbor data width height target tol) (v, q) ns = (v, q)
          \<or> (\<exists>p \<in> grid width height. p \<notin> set v
                \<and> p \<in> set (fst (foldl (visitNeighbor data width height target tol) (v, q) ns))))"
    for v q ns
  proof (induction ns arbitrary: v q)
    case Nil
    show ?case by simp
  next
    case (Cons n ns)
    obtain v1 q1 where s1: "visitNeighbor data width height target tol (v, q) n = (v1, q1)"
      by (cases "visitNeighbor data width height target tol (v, q) n") blast
    show ?case using step [of v q n] Cons [of v1 q1] s1 by auto
  qed
  have fin: "finite (grid width height)" by (simp add: grid_def)
  from 2 have r: "foldl (visitNeighbor data width height target tol) (visited, queue)
             [(x, y - 1), (x, y + 1), (x - 1, y), (x + 1, y)] = (visited', queue')"
    by simp
  show ?case
  proof (cases "(visited', queue') = (visited, queue)")
    case True
    then show ?thesis by simp
  next
    case False
    then obtain p where p: "p \<in> grid width height" "p \<notin> set visited" "p \<in> set visited'"
      using run [of visited queue "[(x, y - 1), (x, y + 1), (x - 1, y), (x + 1, y)]"] r
      by auto
    have sub: "set visited \<subseteq> set visited'"
      using run [of visited queue "[(x, y - 1), (x, y + 1), (x - 1, y), (x + 1, y)]"] r
      by auto
    have "grid width height - set visited' \<subset> grid width height - set visited"
      using p sub by auto
    then have "card (grid width height - set visited') < card (grid width height - set visited)"
      using fin by (simp add: psubset_card_mono)
    then show ?thesis by simp
  qed
qed

text \<open>
  \<^verbatim>\<open>ColorAlgorithm.floodFill\<close>. The queue starts as \<^verbatim>\<open>[start]\<close>. The result is the visited
  set.
\<close>

definition floodFill ::
  "nat list \<Rightarrow> int \<Rightarrow> int \<Rightarrow> int \<times> int \<Rightarrow> real list \<Rightarrow> real \<Rightarrow> (int \<times> int) list" where
  "floodFill data width height start target tol =
     (let visited = []; queue = [start] in
      if \<not> pixelMatch data width target tol (fst start) (snd start) then
        (case searchWindow data width height target tol
                [snd start - 2..snd start + 2] [fst start - 2..fst start + 2]
                (start, visited, queue) of
           (start', visited', queue') \<Rightarrow>
             if length queue' = 0 then visited'
             else bfs data width height target tol visited' queue')
      else bfs data width height target tol (setAdd visited start) queue)"


text \<open>
  A 5 x 5 RGBA image, black except for the white pixel at \<open>x = 0\<close>, \<open>y = 1\<close>.
\<close>

definition missedImage :: "nat list" where
  "missedImage =
     [0, 0, 0, 255, 0, 0, 0, 255, 0, 0, 0, 255, 0, 0, 0, 255, 0, 0, 0, 255,
      255, 255, 255, 255, 0, 0, 0, 255, 0, 0, 0, 255, 0, 0, 0, 255, 0, 0, 0, 255,
      0, 0, 0, 255, 0, 0, 0, 255, 0, 0, 0, 255, 0, 0, 0, 255, 0, 0, 0, 255,
      0, 0, 0, 255, 0, 0, 0, 255, 0, 0, 0, 255, 0, 0, 0, 255, 0, 0, 0, 255,
      0, 0, 0, 255, 0, 0, 0, 255, 0, 0, 0, 255, 0, 0, 0, 255, 0, 0, 0, 255]"

section \<open>Theorems\<close>

subsection \<open>Rounding to binary64\<close>

lemma pow2_pos [simp]: "0 < pow2 e"
  by (simp add: pow2_def)

lemma pow2_nonneg [simp]: "0 \<le> pow2 e"
  by (simp add: pow2_def)

lemma pow2_ne0 [simp]: "pow2 e \<noteq> 0"
  by (simp add: pow2_def)

lemma pow2_add: "pow2 (a + b) = pow2 a * pow2 b"
  by (simp add: pow2_def powr_add)

lemma pow2_mono: "a \<le> b \<Longrightarrow> pow2 a \<le> pow2 b"
  by (simp add: pow2_def)

lemma pow2_less: "a < b \<Longrightarrow> pow2 a < pow2 b"
  by (simp add: pow2_def)

lemma pow2_nat: "pow2 (int n) = 2 ^ n"
  by (simp add: pow2_def powr_realpow)

lemma log2_bracket:
  assumes "0 < x"
  shows "pow2 \<lfloor>log 2 x\<rfloor> \<le> x" and "x < pow2 (\<lfloor>log 2 x\<rfloor> + 1)"
  using floor_log_eq_powr_iff [of x 2 "\<lfloor>log 2 x\<rfloor>"] assms by (simp_all add: pow2_def)

lemma floor_log2_eq:
  assumes "pow2 k \<le> x" "x < pow2 (k + 1)"
  shows "\<lfloor>log 2 x\<rfloor> = k"
proof -
  have "0 < x" using assms(1) pow2_pos [of k] by linarith
  then show ?thesis
    using floor_log_eq_powr_iff [of x 2 k] assms by (simp add: pow2_def)
qed

lemma rne_of_int [simp]: "rne (of_int k) = k"
  by (simp add: rne_def)

lemma rne_bounds: "\<lfloor>y\<rfloor> \<le> rne y" "rne y \<le> \<lfloor>y\<rfloor> + 1"
  by (simp_all add: rne_def Let_def)

lemma rne_mono:
  assumes "a \<le> b"
  shows "rne a \<le> rne b"
proof (cases "\<lfloor>a\<rfloor> = \<lfloor>b\<rfloor>")
  case True
  then show ?thesis using assms by (auto simp: rne_def Let_def)
next
  case False
  then have "\<lfloor>a\<rfloor> + 1 \<le> \<lfloor>b\<rfloor>" using floor_mono [OF assms] by simp
  then show ?thesis using rne_bounds(2) [of a] rne_bounds(1) [of b] by linarith
qed

lemma rne_0 [simp]: "rne 0 = 0"
  by (simp add: rne_def)

lemma rne_nonneg: "0 \<le> y \<Longrightarrow> 0 \<le> rne y"
  using rne_mono [of 0 y] by simp

lemma expo_ge: "- 1074 \<le> expo x" "\<lfloor>log 2 \<bar>x\<bar>\<rfloor> - 52 \<le> expo x"
  by (simp_all add: expo_def)

lemma expo_minus [simp]: "expo (- x) = expo x"
  by (simp add: expo_def)

lemma expo_abs [simp]: "expo \<bar>x\<bar> = expo x"
  by (simp add: expo_def)

lemma expo_mono: "0 < x \<Longrightarrow> x \<le> y \<Longrightarrow> expo x \<le> expo y"
proof -
  assume a: "0 < x" "x \<le> y"
  then have "log 2 x \<le> log 2 y" by simp
  then have "\<lfloor>log 2 x\<rfloor> \<le> \<lfloor>log 2 y\<rfloor>" by (rule floor_mono)
  then show ?thesis using a by (simp add: expo_def)
qed

lemma round64_pos: "0 < x \<Longrightarrow> round64 x = of_int (rne (x / pow2 (expo x))) * pow2 (expo x)"
  by (simp add: round64_def)

lemma round64_minus: "round64 (- x) = - round64 x"
  by (simp add: round64_def sgn_minus)

lemma round64_0 [simp]: "round64 0 = 0"
  by (simp add: round64_def)

lemma round64_nonneg: "0 \<le> x \<Longrightarrow> 0 \<le> round64 x"
proof (cases "x = 0")
  case True
  then show ?thesis by simp
next
  case False
  assume "0 \<le> x"
  then have p: "0 < x" using False by simp
  then have "0 \<le> x / pow2 (expo x)" by (simp add: zero_le_divide_iff)
  then have "0 \<le> rne (x / pow2 (expo x))" by (rule rne_nonneg)
  then show ?thesis using p by (simp add: round64_pos)
qed

lemma scaled_lt: 
  assumes "0 < x"
  shows "x / pow2 (expo x) < 2 ^ 53"
proof -
  have "x < pow2 (\<lfloor>log 2 x\<rfloor> + 1)" using log2_bracket(2) [OF assms] .
  also have "\<dots> \<le> pow2 (expo x + 53)"
    using expo_ge(2) [of x] assms by (intro pow2_mono) simp
  also have "\<dots> = pow2 (expo x) * 2 ^ 53"
    using pow2_add [of "expo x" 53] pow2_nat [of 53] by simp
  finally show ?thesis by (simp add: field_simps)
qed

lemma rne_scaled_le:
  assumes "0 < x"
  shows "rne (x / pow2 (expo x)) \<le> 2 ^ 53"
proof -
  have "x / pow2 (expo x) \<le> of_int (2 ^ 53)" using scaled_lt [OF assms] by simp
  then have "rne (x / pow2 (expo x)) \<le> rne (of_int (2 ^ 53))" by (rule rne_mono)
  then show ?thesis by (simp only: rne_of_int)
qed

lemma round64_mono_pos:
  assumes "0 < x" "x \<le> y"
  shows "round64 x \<le> round64 y"
proof -
  have y: "0 < y" using assms by simp
  have le: "expo x \<le> expo y" using assms by (rule expo_mono)
  show ?thesis
  proof (cases "expo x = expo y")
    case True
    have "x / pow2 (expo y) \<le> y / pow2 (expo y)"
      using assms(2) by (rule divide_right_mono) simp
    then have "rne (x / pow2 (expo y)) \<le> rne (y / pow2 (expo y))" by (rule rne_mono)
    then have "of_int (rne (x / pow2 (expo y))) * pow2 (expo y)
        \<le> of_int (rne (y / pow2 (expo y))) * pow2 (expo y)"
      by (simp add: mult_right_mono)
    then show ?thesis using assms(1) y True by (simp add: round64_pos)
  next
    case False
    then have lt: "expo x + 1 \<le> expo y" using le by simp
    then have ey: "expo y = \<lfloor>log 2 y\<rfloor> - 52"
      using expo_ge(1) [of x] y by (simp add: expo_def)
    have "pow2 (expo y + 52) \<le> y" using log2_bracket(1) [OF y] ey by simp
    then have "pow2 (expo y) * 2 ^ 52 \<le> y"
      using pow2_add [of "expo y" 52] pow2_nat [of 52] by simp
    then have "of_int (2 ^ 52) \<le> y / pow2 (expo y)" by (simp add: field_simps)
    then have "rne (of_int (2 ^ 52)) \<le> rne (y / pow2 (expo y))" by (rule rne_mono)
    then have "(2 ^ 52 :: real) \<le> of_int (rne (y / pow2 (expo y)))"
      by (simp only: rne_of_int) (metis of_int_le_iff of_int_numeral of_int_power)
    then have "2 ^ 52 * pow2 (expo y) \<le> of_int (rne (y / pow2 (expo y))) * pow2 (expo y)"
      by (simp add: mult_right_mono)
    then have a: "2 ^ 52 * pow2 (expo y) \<le> round64 y" using y by (simp add: round64_pos)
    have "(of_int (rne (x / pow2 (expo x))) :: real) \<le> 2 ^ 53"
      using rne_scaled_le [OF assms(1)]
      by (metis of_int_le_iff of_int_numeral of_int_power)
    then have "of_int (rne (x / pow2 (expo x))) * pow2 (expo x) \<le> 2 ^ 53 * pow2 (expo x)"
      by (simp add: mult_right_mono)
    then have b: "round64 x \<le> 2 ^ 53 * pow2 (expo x)" using assms(1) by (simp add: round64_pos)
    have "2 ^ 53 * pow2 (expo x) = 2 ^ 52 * pow2 (expo x + 1)"
      using pow2_add [of "expo x" 1] pow2_nat [of 1] by simp
    also have "\<dots> \<le> 2 ^ 52 * pow2 (expo y)"
      using pow2_mono [OF lt] by simp
    finally show ?thesis using a b by linarith
  qed
qed

lemma round64_mono:
  assumes "x \<le> y"
  shows "round64 x \<le> round64 y"
proof -
  consider "0 < x" | "x \<le> 0" "0 \<le> y" | "y < 0" by linarith
  then show ?thesis
  proof cases
    case 1
    then show ?thesis using assms by (rule round64_mono_pos)
  next
    case 2
    have "round64 x \<le> 0" using round64_nonneg [of "- x"] 2(1) by (simp add: round64_minus)
    moreover have "0 \<le> round64 y" using 2(2) by (rule round64_nonneg)
    ultimately show ?thesis by simp
  next
    case 3
    then have "round64 (- y) \<le> round64 (- x)"
      using assms by (intro round64_mono_pos) simp_all
    then show ?thesis by (simp add: round64_minus)
  qed
qed

lemma round64_exact:
  assumes "\<bar>x\<bar> / pow2 (expo x) = of_int k"
  shows "round64 x = x"
proof (cases "x = 0")
  case True
  then show ?thesis by simp
next
  case False
  have "of_int (rne (\<bar>x\<bar> / pow2 (expo x))) * pow2 (expo x) = \<bar>x\<bar>"
    by (simp only: assms rne_of_int) (simp add: assms [symmetric])
  then have "round64 x = sgn x * \<bar>x\<bar>" using False by (simp add: round64_def)
  then show ?thesis by (simp add: sgn_mult_abs)
qed

lemma pow2_diff_int:
  assumes "e \<le> j"
  shows "pow2 j / pow2 e = of_int (2 ^ nat (j - e))"
proof -
  have "j = e + int (nat (j - e))" using assms by simp
  then have "pow2 j = pow2 e * pow2 (int (nat (j - e)))"
    using pow2_add [of e "int (nat (j - e))"] by simp
  then have "pow2 j / pow2 e = pow2 (int (nat (j - e)))" by simp
  then show ?thesis by (simp only: pow2_nat) simp
qed

lemma round64_dyadic:
  assumes k: "\<bar>k\<bar> \<le> 2 ^ 53" and j: "- 1074 \<le> j"
  shows "round64 (of_int k * pow2 j) = of_int k * pow2 j"
proof (cases "k = 0")
  case True
  then show ?thesis by simp
next
  case False
  let ?x = "of_int k * pow2 j :: real"
  have ax: "\<bar>?x\<bar> = of_int \<bar>k\<bar> * pow2 j" by (simp add: abs_mult)
  have pos: "0 < \<bar>?x\<bar>" using False by simp
  show ?thesis
  proof (cases "\<bar>k\<bar> = 2 ^ 53")
    case True
    have v: "\<bar>?x\<bar> = pow2 (j + 53)"
      using pow2_add [of j 53] pow2_nat [of 53] by (simp add: ax True)
    have "pow2 (j + 53) \<le> \<bar>?x\<bar>" by (simp only: v)
    moreover have "\<bar>?x\<bar> < pow2 (j + 53 + 1)" by (simp only: v) (rule pow2_less, simp)
    ultimately have "\<lfloor>log 2 \<bar>?x\<bar>\<rfloor> = j + 53"
      by (rule floor_log2_eq)
    then have e: "expo ?x = j + 1" using j by (simp add: expo_def)
    have "\<bar>?x\<bar> / pow2 (expo ?x) = of_int (2 ^ nat 52)"
      unfolding v e using pow2_diff_int [of "j + 1" "j + 53"] by simp
    then show ?thesis by (rule round64_exact)
  next
    case ne: False
    then have "\<bar>k\<bar> < 2 ^ 53" using k by simp
    then have "(of_int \<bar>k\<bar> :: real) < 2 ^ 53"
      by (metis of_int_less_iff of_int_numeral of_int_power)
    then have "\<bar>?x\<bar> < 2 ^ 53 * pow2 j" by (simp add: ax)
    then have lt: "\<bar>?x\<bar> < pow2 (j + 53)"
      using pow2_add [of j 53] pow2_nat [of 53] by (simp add: mult.commute)
    have "pow2 \<lfloor>log 2 \<bar>?x\<bar>\<rfloor> < pow2 (j + 53)"
      using log2_bracket(1) [OF pos] lt by linarith
    then have "\<lfloor>log 2 \<bar>?x\<bar>\<rfloor> < j + 53"
      by (simp add: pow2_def)
    then have e: "expo ?x \<le> j" using j by (simp add: expo_def)
    have "\<bar>?x\<bar> / pow2 (expo ?x) = of_int \<bar>k\<bar> * (pow2 j / pow2 (expo ?x))"
      by (simp add: ax)
    also have "\<dots> = of_int (\<bar>k\<bar> * 2 ^ nat (j - expo ?x))"
      by (simp only: pow2_diff_int [OF e] of_int_mult)
    finally show ?thesis by (rule round64_exact)
  qed
qed

lemma round64_int: "\<bar>k\<bar> \<le> 2 ^ 53 \<Longrightarrow> round64 (of_int k) = of_int k"
  using round64_dyadic [of k 0] by (simp add: pow2_def)

lemma round64_repr:
  "\<exists>k j. \<bar>k\<bar> \<le> 2 ^ 53 \<and> - 1074 \<le> j \<and> round64 x = of_int k * pow2 j"
proof (cases "x = 0")
  case True
  show ?thesis by (rule exI [of _ 0], rule exI [of _ 0]) (simp add: True)
next
  case False
  let ?m = "rne (\<bar>x\<bar> / pow2 (expo x))"
  have "0 \<le> \<bar>x\<bar> / pow2 (expo x)" by (simp add: zero_le_divide_iff)
  then have m0: "0 \<le> ?m" by (rule rne_nonneg)
  have "?m \<le> 2 ^ 53" using rne_scaled_le [of "\<bar>x\<bar>"] False by simp
  then have m: "\<bar>?m\<bar> \<le> 2 ^ 53" using m0 by simp
  have r: "round64 x = sgn x * (of_int ?m * pow2 (expo x))"
    using False by (simp add: round64_def)
  show ?thesis
  proof (cases "0 < x")
    case True
    then have "round64 x = of_int ?m * pow2 (expo x)" using r by simp
    then show ?thesis using m expo_ge(1) [of x] by blast
  next
    case neg: False
    then have "x < 0" using False by simp
    then have "round64 x = of_int (- ?m) * pow2 (expo x)" using r by simp
    moreover have "\<bar>- ?m\<bar> \<le> 2 ^ 53" using m by simp
    ultimately show ?thesis using expo_ge(1) [of x] by blast
  qed
qed

lemma round64_idem: "round64 (round64 x) = round64 x"
proof -
  obtain k j where "\<bar>k\<bar> \<le> 2 ^ 53" "- 1074 \<le> j" "round64 x = of_int k * pow2 j"
    using round64_repr [of x] by blast
  then show ?thesis using round64_dyadic [of k j] by simp
qed

lemma double_multiple:
  assumes "round64 x = x"
  shows "\<exists>n :: int. x = of_int n * pow2 (- 1074)"
proof -
  obtain k j where kj: "- 1074 \<le> j" "round64 x = of_int k * pow2 j"
    using round64_repr [of x] by blast
  have "pow2 j = of_int (2 ^ nat (j + 1074)) * pow2 (- 1074)"
    using pow2_diff_int [of "- 1074" j] kj(1) by (simp add: field_simps)
  then have "x = of_int (k * 2 ^ nat (j + 1074)) * pow2 (- 1074)"
    using kj(2) assms by simp
  then show ?thesis by blast
qed

lemma round64_tiny: "round64 (pow2 (- 1074)) = pow2 (- 1074)"
  using round64_dyadic [of 1 "- 1074"] by simp

lemma round64_diff_pos:
  assumes "round64 u = u" "round64 v = v" "v < u"
  shows "0 < round64 (u - v)"
proof -
  obtain n1 n2 :: int where n: "u = of_int n1 * pow2 (- 1074)" "v = of_int n2 * pow2 (- 1074)"
    using double_multiple assms(1,2) by blast
  have "of_int n2 * pow2 (- 1074) < of_int n1 * pow2 (- 1074)" using assms(3) n by simp
  then have "n2 < n1" by simp
  then have "1 \<le> n1 - n2" by simp
  then have "(1::real) \<le> of_int (n1 - n2)" by (metis of_int_1_le_iff)
  then have "1 * pow2 (- 1074) \<le> of_int (n1 - n2) * pow2 (- 1074)"
    by (intro mult_right_mono) simp_all
  then have "pow2 (- 1074) \<le> u - v" by (simp add: n left_diff_distrib)
  then have "round64 (pow2 (- 1074)) \<le> round64 (u - v)" by (rule round64_mono)
  then show ?thesis using pow2_pos [of "- 1074"] by (simp only: round64_tiny)
qed

lemma round64_eval:
  assumes "pow2 l \<le> \<bar>x\<bar>" "\<bar>x\<bar> < pow2 (l + 1)"
  shows "round64 x = sgn x * (of_int (rne (\<bar>x\<bar> / pow2 (max (l - 52) (- 1074))))
                              * pow2 (max (l - 52) (- 1074)))"
proof -
  have "\<lfloor>log 2 \<bar>x\<bar>\<rfloor> = l" using assms by (rule floor_log2_eq)
  then have "expo x = max (l - 52) (- 1074)" by (simp add: expo_def)
  moreover have "0 < \<bar>x\<bar>" using assms(1) pow2_pos [of l] by linarith
  then have "x \<noteq> 0" by simp
  ultimately show ?thesis by (simp add: round64_def)
qed

lemma isDouble_no_overflow:
  assumes "isDouble lo" "isDouble hi" "lo \<le> x" "x \<le> hi"
  shows "toNum x = Fin (round64 x)" and "lo \<le> round64 x" and "round64 x \<le> hi"
proof -
  have a: "round64 lo \<le> round64 x" "round64 x \<le> round64 hi"
    using assms(3,4) by (simp_all add: round64_mono)
  show "lo \<le> round64 x" "round64 x \<le> hi"
    using a assms(1,2) by (simp_all add: isDouble_def)
  then show "toNum x = Fin (round64 x)"
    using assms(1,2) by (auto simp: toNum_def isDouble_def Let_def)
qed

lemma isDouble_minus: "isDouble x \<Longrightarrow> isDouble (- x)"
  by (simp add: isDouble_def round64_minus)

lemma isDouble_0 [simp]: "isDouble 0"
  by (simp add: isDouble_def maxDouble_def)

lemma maxDouble_ge: "2 ^ 53 \<le> maxDouble"
  by (simp add: maxDouble_def)

lemma isDouble_int: "\<bar>k\<bar> \<le> 2 ^ 53 \<Longrightarrow> isDouble (of_int k)"
proof -
  assume k: "\<bar>k\<bar> \<le> 2 ^ 53"
  then have "\<bar>of_int k :: real\<bar> \<le> 2 ^ 53"
    by (metis of_int_abs of_int_le_iff of_int_numeral of_int_power)
  then show ?thesis using k maxDouble_ge by (simp add: isDouble_def round64_int)
qed

lemma isDouble_numeral: "(numeral w :: int) \<le> 2 ^ 53 \<Longrightarrow> isDouble (numeral w)"
  using isDouble_int [of "numeral w"] by simp

lemma toNum_isDouble: "isDouble x \<Longrightarrow> toNum x = Fin x"
  by (auto simp: toNum_def isDouble_def Let_def)

lemma toNum_numeral: "(numeral w :: int) \<le> 2 ^ 53 \<Longrightarrow> toNum (numeral w) = Fin (numeral w)"
  by (simp add: toNum_isDouble isDouble_numeral)

lemma toNum_0 [simp]: "toNum 0 = Fin 0"
  by (simp add: toNum_isDouble)

lemma toNum_evalI:
  assumes "pow2 l \<le> \<bar>x\<bar>" "\<bar>x\<bar> < pow2 (l + 1)"
    and "sgn x * (of_int (rne (\<bar>x\<bar> / pow2 (max (l - 52) (- 1074))))
                  * pow2 (max (l - 52) (- 1074))) = r"
    and "\<bar>r\<bar> \<le> maxDouble"
  shows "toNum x = Fin r"
proof -
  have "round64 x = r" using round64_eval [OF assms(1,2)] assms(3) by simp
  then show ?thesis using assms(4) by (auto simp: toNum_def Let_def)
qed

lemmas flt_eval = pow2_def rne_def powr_neg_numeral maxDouble_def

lemma isDouble_1: "isDouble 1"
  using isDouble_int [of 1] by simp

lemma isDouble_100: "isDouble 100"
  using isDouble_int [of 100] by simp

lemma toNum_Ints:
  assumes "x \<in> \<int>" "\<bar>x\<bar> \<le> 2 ^ 53"
  shows "toNum x = Fin x"
proof -
  obtain k :: int where k: "x = of_int k" using assms(1) by (rule Ints_cases)
  then have "\<bar>of_int k :: real\<bar> \<le> 2 ^ 53" using assms(2) by simp
  then have "\<bar>k\<bar> \<le> 2 ^ 53"
    by (metis of_int_abs of_int_le_iff of_int_numeral of_int_power)
  then show ?thesis using k by (simp add: toNum_isDouble isDouble_int)
qed

lemma toNum_half:
  assumes "x \<in> \<int>" "\<bar>x\<bar> \<le> 2 ^ 53"
  shows "toNum (x / 2) = Fin (x / 2)"
proof -
  obtain k :: int where k: "x = of_int k" using assms(1) by (rule Ints_cases)
  then have "\<bar>of_int k :: real\<bar> \<le> 2 ^ 53" using assms(2) by simp
  then have kb: "\<bar>k\<bar> \<le> 2 ^ 53"
    by (metis of_int_abs of_int_le_iff of_int_numeral of_int_power)
  have h: "x / 2 = of_int k * pow2 (- 1)" by (simp add: k pow2_def powr_neg_numeral powr_minus_divide)
  have "round64 (x / 2) = x / 2" unfolding h using kb by (intro round64_dyadic) simp_all
  moreover have "\<bar>x / 2\<bar> \<le> maxDouble" using assms(2) maxDouble_ge by simp
  ultimately show ?thesis by (simp add: toNum_isDouble isDouble_def)
qed

lemma toNum_minus:
  "toNum (- x) = (case toNum x of Fin r \<Rightarrow> Fin (- r) | PInf \<Rightarrow> NInf | NInf \<Rightarrow> PInf | NaN \<Rightarrow> NaN)"
  using maxDouble_ge by (auto simp: toNum_def Let_def round64_minus)

lemma toNum_1: "toNum 1 = Fin 1"
  using toNum_isDouble [OF isDouble_1] .

lemma toNum_1_2: "toNum (1 / 2) = Fin (1 / 2)"
  using toNum_half [of 1] by simp

subsection \<open>Zero-length chords\<close>

text \<open>
  C5, as the claim states it, fails for the AI implementation: with a chord of length zero
  \<^verbatim>\<open>perpendicularDistance\<close> takes its guard \<^verbatim>\<open>if (bottom === 0) return 0\<close>. The
  point (1, 0) is at distance 1 from the origin, and the helper returns 0, both with the
  length passed in and with the length computed in the helper.
\<close>

theorem perpendicularDistance_zero_chord_counterexample:
  "perpendicularDistance \<lparr>px = 1, py = 0\<rparr> \<lparr>px = 0, py = 0\<rparr> \<lparr>px = 0, py = 0\<rparr>
       (Some (normalLength_of \<lparr>px = 0, py = 0\<rparr> \<lparr>px = 0, py = 0\<rparr>)) = 0
   \<and> perpendicularDistance \<lparr>px = 1, py = 0\<rparr> \<lparr>px = 0, py = 0\<rparr> \<lparr>px = 0, py = 0\<rparr> None = 0
   \<and> dist (Complex 1 0) (Complex 0 0) = 1
   \<and> perpDist \<lparr>px = 1, py = 0\<rparr> \<lparr>px = 0, py = 0\<rparr> \<lparr>px = 0, py = 0\<rparr> = 1"
  by (simp add: perpendicularDistance_def normalLength_of_def perpDist_def hypot_def
      dist_complex_def cmod_def)

text \<open>
  C5 (amended): for every point \<open>p\<close> and every chord whose two endpoints are the same point
  \<open>a\<close>, \<^verbatim>\<open>perpDist\<close> of the logic implementation returns the straight-line (Euclidean)
  distance from \<open>p\<close> to \<open>a\<close> (the distance of the two points in the complex plane), and \<^verbatim>\<open>perpendicularDistance\<close> of the AI implementation
  returns 0, whether the chord length is passed in or computed by the helper.
\<close>

theorem perpDist_zero_chord:
  "perpDist p a a = dist (Complex (px p) (py p)) (Complex (px a) (py a))
   \<and> perpendicularDistance p a a (Some (normalLength_of a a)) = 0
   \<and> perpendicularDistance p a a None = 0"
  by (simp add: perpDist_def hypot_def dist_complex_def cmod_def
      perpendicularDistance_def normalLength_of_def)

theorem perpDist_zero_chord_witness:
  "perpDist \<lparr>px = 3, py = 4\<rparr> \<lparr>px = 0, py = 0\<rparr> \<lparr>px = 0, py = 0\<rparr> = dist (Complex 3 4) (Complex 0 0)
   \<and> perpendicularDistance \<lparr>px = 3, py = 4\<rparr> \<lparr>px = 0, py = 0\<rparr> \<lparr>px = 0, py = 0\<rparr> None = 0"
  using perpDist_zero_chord [of "\<lparr>px = 3, py = 4\<rparr>" "\<lparr>px = 0, py = 0\<rparr>"]
  by simp

subsection \<open>Polygon area under rotation and reversal\<close>

lemma foldl_add_sum_list: "foldl (\<lambda>a i. a + f i) (a::real) xs = a + sum_list (map f xs)"
  by (induction xs arbitrary: a) simp_all

lemma exactShoelaceSum_sum:
  "exactShoelaceSum ps = (\<Sum>i<length ps. cross2 (ps ! i) (ps ! ((i + 1) mod length ps)))"
proof -
  have "exactShoelaceSum ps =
      sum_list (map (\<lambda>i. cross2 (ps ! i) (ps ! ((i + 1) mod length ps))) [0..<length ps])"
    unfolding exactShoelaceSum_def Let_def cross2_def
    using foldl_add_sum_list [of "\<lambda>i. px (ps ! i) * py (ps ! ((i + 1) mod length ps)) - px (ps ! ((i + 1) mod length ps)) * py (ps ! i)" 0 "[0..<length ps]"]
    by simp
  also have "\<dots> = (\<Sum>i<length ps. cross2 (ps ! i) (ps ! ((i + 1) mod length ps)))"
    by (simp add: interv_sum_list_conv_sum_set_nat atLeast0LessThan)
  finally show ?thesis .
qed

lemma sum_shift1: "(\<Sum>i<n. g ((i + 1) mod n)) = (\<Sum>i<(n::nat). (g i :: real))"
proof (cases n)
  case 0
  then show ?thesis by simp
next
  case (Suc m)
  have "(\<Sum>i<Suc m. g ((i + 1) mod Suc m)) = (\<Sum>i<m. g ((i + 1) mod Suc m)) + g 0"
    by simp
  also have "(\<Sum>i<m. g ((i + 1) mod Suc m)) = (\<Sum>i<m. g (Suc i))"
    by (rule sum.cong) simp_all
  also have "(\<Sum>i<m. g (Suc i)) + g 0 = (\<Sum>i<Suc m. g i)"
    using sum.lessThan_Suc_shift [of g m] by simp
  finally show ?thesis using Suc by simp
qed

lemma sum_shift: "(\<Sum>i<n. g ((i + k) mod n)) = (\<Sum>i<(n::nat). (g i :: real))"
proof (induction k)
  case 0
  show ?case by (rule sum.cong) simp_all
next
  case (Suc k)
  have "(\<Sum>i<n. g ((i + Suc k) mod n)) = (\<Sum>i<n. (\<lambda>j. g ((j + k) mod n)) ((i + 1) mod n))"
    by (rule sum.cong) (simp_all add: mod_add_left_eq)
  also have "\<dots> = (\<Sum>i<n. g ((i + k) mod n))"
    by (rule sum_shift1)
  finally show ?case using Suc by simp
qed

lemma exactShoelaceSum_rotate: "exactShoelaceSum (rotate k ps) = exactShoelaceSum ps"
proof (cases "ps = []")
  case True
  then show ?thesis by simp
next
  case False
  let ?n = "length ps"
  let ?g = "\<lambda>i. cross2 (ps ! i) (ps ! ((i + 1) mod ?n))"
  have "exactShoelaceSum (rotate k ps) = (\<Sum>i<?n. ?g ((i + k) mod ?n))"
    unfolding exactShoelaceSum_sum
  proof (simp, rule sum.cong, simp)
    fix i assume "i \<in> {..<?n}"
    then have i: "i < ?n" by simp
    have j: "Suc i mod ?n < ?n" using False by simp
    have a: "rotate k ps ! i = ps ! ((i + k) mod ?n)"
      using i by (simp add: nth_rotate add.commute)
    have "rotate k ps ! (Suc i mod ?n) = ps ! ((k + Suc i mod ?n) mod ?n)"
      using j by (simp add: nth_rotate)
    also have "(k + Suc i mod ?n) mod ?n = (k + Suc i) mod ?n"
      by (rule mod_add_right_eq)
    also have "(k + Suc i) mod ?n = Suc ((i + k) mod ?n) mod ?n"
      by (simp add: mod_Suc_eq add.commute)
    finally show "cross2 (rotate k ps ! i) (rotate k ps ! (Suc i mod ?n))
        = cross2 (ps ! ((i + k) mod ?n)) (ps ! (Suc ((i + k) mod ?n) mod ?n))"
      using a by simp
  qed
  then show ?thesis using sum_shift [of ?g k ?n] by (simp add: exactShoelaceSum_sum)
qed

lemma cross2_anti: "cross2 a b = - cross2 b a"
  by (simp add: cross2_def)

lemma exactShoelaceSum_rev: "exactShoelaceSum (rev ps) = - exactShoelaceSum ps"
proof (cases "ps = []")
  case True
  then show ?thesis by (simp add: exactShoelaceSum_sum)
next
  case False
  let ?n = "length ps"
  let ?g = "\<lambda>i. cross2 (ps ! i) (ps ! ((i + 1) mod ?n))"
  let ?h = "\<lambda>k. - ?g ((k + (?n - 1)) mod ?n)"
  have n: "0 < ?n" using False by simp
  have "exactShoelaceSum (rev ps) = (\<Sum>i<?n. ?h (?n - Suc i))"
    unfolding exactShoelaceSum_sum
  proof (simp only: length_rev, rule sum.cong, simp)
    fix i assume "i \<in> {..<?n}"
    then have i: "i < ?n" by simp
    have j: "(i + 1) mod ?n < ?n" using n by simp
    have a: "rev ps ! i = ps ! (?n - Suc i)"
      using i by (simp add: rev_nth)
    have b: "rev ps ! ((i + 1) mod ?n) = ps ! (?n - Suc ((i + 1) mod ?n))"
      using j by (simp add: rev_nth)
    have c: "(?n - Suc i + (?n - 1)) mod ?n = ?n - Suc ((i + 1) mod ?n)"
    proof (cases "i + 1 = ?n")
      case True
      then have "?n - Suc i = 0" by simp
      then show ?thesis using True n by simp
    next
      case False
      then have lt: "i + 1 < ?n" using i by simp
      then have "?n - Suc i + (?n - 1) = (?n - Suc (Suc i)) + ?n" by simp
      then have "(?n - Suc i + (?n - 1)) mod ?n = (?n - Suc (Suc i)) mod ?n"
        by (metis mod_add_self2)
      then show ?thesis using lt by simp
    qed
    have d: "((?n - Suc i + (?n - 1)) mod ?n + 1) mod ?n = ?n - Suc i"
    proof -
      have "((?n - Suc i + (?n - 1)) mod ?n + 1) mod ?n = (?n - Suc i + (?n - 1) + 1) mod ?n"
        by (simp add: mod_Suc_eq)
      also have "?n - Suc i + (?n - 1) + 1 = (?n - Suc i) + ?n" using n by simp
      also have "((?n - Suc i) + ?n) mod ?n = ?n - Suc i"
        using i by (simp only: mod_add_self2) simp
      finally show ?thesis .
    qed
    have "?h (?n - Suc i)
        = - cross2 (ps ! ((?n - Suc i + (?n - 1)) mod ?n)) (ps ! (?n - Suc i))"
      by (simp only: d)
    also have "\<dots> = - cross2 (ps ! (?n - Suc ((i + 1) mod ?n))) (ps ! (?n - Suc i))"
      by (simp only: c)
    also have "\<dots> = cross2 (ps ! (?n - Suc i)) (ps ! (?n - Suc ((i + 1) mod ?n)))"
      using cross2_anti [of "ps ! (?n - Suc i)"] by simp
    finally show "cross2 (rev ps ! i) (rev ps ! ((i + 1) mod ?n)) = ?h (?n - Suc i)"
      by (simp only: a b)
  qed
  also have "\<dots> = (\<Sum>i<?n. ?h i)"
    by (rule sum.nat_diff_reindex)
  also have "\<dots> = - (\<Sum>i<?n. ?g ((i + (?n - 1)) mod ?n))"
    by (simp add: sum_negf)
  also have "\<dots> = - (\<Sum>i<?n. ?g i)"
    using sum_shift [of ?g "?n - 1" ?n] by simp
  finally show ?thesis by (simp add: exactShoelaceSum_sum)
qed

lemma shoelace_term:
  assumes xi: "xi \<in> \<int>" "\<bar>xi\<bar> \<le> B" and yi: "yi \<in> \<int>" "\<bar>yi\<bar> \<le> B"
    and xj: "xj \<in> \<int>" "\<bar>xj\<bar> \<le> B" and yj: "yj \<in> \<int>" "\<bar>yj\<bar> \<le> B"
    and a: "a \<in> \<int>" "\<bar>a\<bar> + 2 * B * B \<le> 2 ^ 53"
  shows "fadd (Fin a) (fsub (fmul (Fin xi) (Fin yj)) (fmul (Fin xj) (Fin yi)))
           = Fin (a + (xi * yj - xj * yi))"
    and "a + (xi * yj - xj * yi) \<in> \<int>"
    and "\<bar>a + (xi * yj - xj * yi)\<bar> \<le> \<bar>a\<bar> + 2 * B * B"
proof -
  have B0: "0 \<le> B" using xi(2) by simp
  have p1: "\<bar>xi * yj\<bar> \<le> B * B" using xi(2) yj(2) by (simp add: abs_mult mult_mono)
  have p2: "\<bar>xj * yi\<bar> \<le> B * B" using xj(2) yi(2) by (simp add: abs_mult mult_mono)
  have big: "2 * B * B \<le> 2 ^ 53" using a(2) by simp
  have BB: "0 \<le> B * B" using B0 by simp
  have m1: "toNum (xi * yj) = Fin (xi * yj)"
    using xi(1) yj(1) p1 big BB by (intro toNum_Ints) simp_all
  have m2: "toNum (xj * yi) = Fin (xj * yi)"
    using xj(1) yi(1) p2 big BB by (intro toNum_Ints) simp_all
  have t: "\<bar>xi * yj - xj * yi\<bar> \<le> 2 * B * B" using p1 p2 by linarith
  have s: "toNum (xi * yj - xj * yi) = Fin (xi * yj - xj * yi)"
    using xi(1) yj(1) xj(1) yi(1) t big by (intro toNum_Ints) simp_all
  show i: "a + (xi * yj - xj * yi) \<in> \<int>" using a(1) xi(1) yj(1) xj(1) yi(1) by simp
  show b: "\<bar>a + (xi * yj - xj * yi)\<bar> \<le> \<bar>a\<bar> + 2 * B * B" using t by linarith
  have "toNum (a + (xi * yj - xj * yi)) = Fin (a + (xi * yj - xj * yi))"
    using i b a(2) by (intro toNum_Ints) simp_all
  then show "fadd (Fin a) (fsub (fmul (Fin xi) (Fin yj)) (fmul (Fin xj) (Fin yi)))
           = Fin (a + (xi * yj - xj * yi))"
    by (simp add: m1 m2 s)
qed

lemma shoelace_fold_exact:
  assumes pts: "\<forall>p \<in> set ps. px p \<in> \<int> \<and> py p \<in> \<int> \<and> \<bar>px p\<bar> \<le> B \<and> \<bar>py p\<bar> \<le> B"
    and n: "0 < length ps"
  shows "\<forall>i \<in> set is. i < length ps \<Longrightarrow> a \<in> \<int>
     \<Longrightarrow> \<bar>a\<bar> + real (length is) * (2 * B * B) \<le> 2 ^ 53
     \<Longrightarrow> foldl (areaStep ps) (Fin a) is
         = Fin (a + sum_list (map (\<lambda>i. cross2 (ps ! i) (ps ! ((i + 1) mod length ps))) is))
       \<and> a + sum_list (map (\<lambda>i. cross2 (ps ! i) (ps ! ((i + 1) mod length ps))) is) \<in> \<int>
       \<and> \<bar>a + sum_list (map (\<lambda>i. cross2 (ps ! i) (ps ! ((i + 1) mod length ps))) is)\<bar>
           \<le> \<bar>a\<bar> + real (length is) * (2 * B * B)"
proof (induction "is" arbitrary: a)
  case Nil
  then show ?case by simp
next
  case (Cons i "is")
  let ?j = "(i + 1) mod length ps"
  have i: "i < length ps" using Cons.prems(1) by simp
  have j: "?j < length ps" using n by simp
  have pi: "px (ps ! i) \<in> \<int>" "py (ps ! i) \<in> \<int>" "\<bar>px (ps ! i)\<bar> \<le> B" "\<bar>py (ps ! i)\<bar> \<le> B"
    using pts i by simp_all
  have pj: "px (ps ! ?j) \<in> \<int>" "py (ps ! ?j) \<in> \<int>" "\<bar>px (ps ! ?j)\<bar> \<le> B" "\<bar>py (ps ! ?j)\<bar> \<le> B"
    using pts j nth_mem [OF j] by blast+
  have B0: "0 \<le> 2 * B * B" using pi(3) by simp
  have rest: "0 \<le> real (length is) * (2 * B * B)" using B0 by simp
  have ab: "\<bar>a\<bar> + 2 * B * B \<le> 2 ^ 53"
    using Cons.prems(3) rest by (simp add: algebra_simps)
  let ?a' = "a + (px (ps ! i) * py (ps ! ?j) - px (ps ! ?j) * py (ps ! i))"
  have st: "areaStep ps (Fin a) i = Fin ?a'"
    and ai: "?a' \<in> \<int>" and ab': "\<bar>?a'\<bar> \<le> \<bar>a\<bar> + 2 * B * B"
    unfolding areaStep_def Let_def
    using shoelace_term [OF pi(1,3) pi(2,4) pj(1,3) pj(2,4) Cons.prems(2) ab] by blast+
  have bound: "\<bar>?a'\<bar> + real (length is) * (2 * B * B) \<le> 2 ^ 53"
    using ab' Cons.prems(3) by (simp add: algebra_simps)
  have "\<forall>i \<in> set is. i < length ps" using Cons.prems(1) by simp
  note IH = Cons.IH [OF this ai bound]
  have c: "cross2 (ps ! i) (ps ! ?j) = px (ps ! i) * py (ps ! ?j) - px (ps ! ?j) * py (ps ! i)"
    by (simp add: cross2_def)
  have sum: "a + sum_list (map (\<lambda>i. cross2 (ps ! i) (ps ! ((i + 1) mod length ps))) (i # is))
      = ?a' + sum_list (map (\<lambda>i. cross2 (ps ! i) (ps ! ((i + 1) mod length ps))) is)"
    by (simp add: cross2_def)
  have le: "\<bar>?a'\<bar> + real (length is) * (2 * B * B)
      \<le> \<bar>a\<bar> + real (length (i # is)) * (2 * B * B)"
    using ab' by (simp add: algebra_simps)
  let ?S = "sum_list (map (\<lambda>i. cross2 (ps ! i) (ps ! ((i + 1) mod length ps))) is)"
  from IH have i1: "foldl (areaStep ps) (Fin ?a') is = Fin (?a' + ?S)"
    and i2: "?a' + ?S \<in> \<int>"
    and i3: "\<bar>?a' + ?S\<bar> \<le> \<bar>?a'\<bar> + real (length is) * (2 * B * B)"
    by blast+
  show ?case
    unfolding sum
  proof (intro conjI)
    show "foldl (areaStep ps) (Fin a) (i # is) = Fin (?a' + ?S)"
      by (simp only: foldl_Cons st i1)
    show "?a' + ?S \<in> \<int>" by (rule i2)
    show "\<bar>?a' + ?S\<bar> \<le> \<bar>a\<bar> + real (length (i # is)) * (2 * B * B)"
      using i3 le by linarith
  qed
qed

lemma shoelaceSum_foldl: "shoelaceSum ps = foldl (areaStep ps) (Fin 0) [0..<length ps]"
  by (simp add: shoelaceSum_def areaStep_def [abs_def] Let_def)

lemma exactShoelaceSum_sum_list:
  "exactShoelaceSum ps
     = sum_list (map (\<lambda>i. cross2 (ps ! i) (ps ! ((i + 1) mod length ps))) [0..<length ps])"
  by (simp add: exactShoelaceSum_sum interv_sum_list_conv_sum_set_nat atLeast0LessThan)

lemma shoelaceSum_exact:
  assumes "smallInts B ps"
  shows "shoelaceSum ps = Fin (exactShoelaceSum ps)"
    and "exactShoelaceSum ps \<in> \<int>" and "\<bar>exactShoelaceSum ps\<bar> \<le> 2 ^ 52"
proof -
  have pts: "\<forall>p \<in> set ps. px p \<in> \<int> \<and> py p \<in> \<int> \<and> \<bar>px p\<bar> \<le> B \<and> \<bar>py p\<bar> \<le> B"
    and len: "real (length ps) * (2 * B * B) \<le> 2 ^ 52"
    using assms by (simp_all add: smallInts_def)
  have all: "shoelaceSum ps = Fin (exactShoelaceSum ps) \<and> exactShoelaceSum ps \<in> \<int>
      \<and> \<bar>exactShoelaceSum ps\<bar> \<le> 2 ^ 52"
  proof (cases "ps = []")
    case True
    then show ?thesis by (simp add: shoelaceSum_foldl exactShoelaceSum_sum_list)
  next
    case False
    then have n: "0 < length ps" by simp
    have b: "\<bar>0 :: real\<bar> + real (length [0..<length ps]) * (2 * B * B) \<le> 2 ^ 53"
      using len by simp
    have "foldl (areaStep ps) (Fin 0) [0..<length ps] = Fin (0 + exactShoelaceSum ps)
        \<and> 0 + exactShoelaceSum ps \<in> \<int>
        \<and> \<bar>0 + exactShoelaceSum ps\<bar> \<le> \<bar>0 :: real\<bar> + real (length [0..<length ps]) * (2 * B * B)"
      unfolding exactShoelaceSum_sum_list
      by (rule shoelace_fold_exact [OF pts n _ _ b]) simp_all
    then have f: "foldl (areaStep ps) (Fin 0) [0..<length ps] = Fin (exactShoelaceSum ps)"
      and i: "exactShoelaceSum ps \<in> \<int>"
      and l: "\<bar>exactShoelaceSum ps\<bar> \<le> real (length ps) * (2 * B * B)"
      by simp_all
    have "\<bar>exactShoelaceSum ps\<bar> \<le> 2 ^ 52" using l len by linarith
    then show ?thesis using f i by (simp only: shoelaceSum_foldl)
  qed
  show "shoelaceSum ps = Fin (exactShoelaceSum ps)"
    and "exactShoelaceSum ps \<in> \<int>" and "\<bar>exactShoelaceSum ps\<bar> \<le> 2 ^ 52"
    using all by blast+
qed

lemma calculatePolygonArea_exact:
  assumes "smallInts B ps"
  shows "calculatePolygonArea ps = Fin \<bar>exactShoelaceSum ps / 2\<bar>"
proof -
  have "toNum (exactShoelaceSum ps / 2) = Fin (exactShoelaceSum ps / 2)"
    using shoelaceSum_exact(2,3) [OF assms] by (intro toNum_half) simp_all
  then show ?thesis
    by (simp add: calculatePolygonArea_def shoelaceSum_exact(1) [OF assms])
qed

lemma smallInts_rotate: "smallInts B (rotate k ps) = smallInts B ps"
  by (simp add: smallInts_def)

lemma smallInts_rev: "smallInts B (rev ps) = smallInts B ps"
  by (simp add: smallInts_def)

lemma fabs_not_negative: "\<not> numLess (fabs a) (Fin 0)"
  by (cases a) simp_all

lemma toNum_2p53_1: "toNum 9007199254740993 = Fin 9007199254740992"
  by (rule toNum_evalI [of 53]) (simp_all add: flt_eval)

lemma toNum_2p53_2: "toNum 9007199254740994 = Fin 9007199254740994"
  by (rule toNum_evalI [of 53]) (simp_all add: flt_eval)

lemmas area_eval = calculatePolygonArea_def shoelaceSum_def Let_def upt_rec
  toNum_numeral toNum_minus toNum_1 toNum_1_2 toNum_2p53_1 toNum_2p53_2

text \<open>
  Rotation changes the result for ordinary coordinates too. For the triangle whose
  coordinates are the doubles nearest to (0.2, 1.9), (0.2, 0.4), (0.7, 1.9) the function
  returns the doubles printed 0.37499999999999994, 0.3749999999999999 and 0.375 for the
  list, its rotation by one and its rotation by two.
\<close>

lemma calculatePolygonArea_rounding_example:
  "calculatePolygonArea
       [\<lparr>px = 3602879701896397 / 18014398509481984, py = 4278419646001971 / 2251799813685248\<rparr>,
        \<lparr>px = 3602879701896397 / 18014398509481984, py = 3602879701896397 / 9007199254740992\<rparr>,
        \<lparr>px = 3152519739159347 / 4503599627370496, py = 4278419646001971 / 2251799813685248\<rparr>]
     = Fin (6755399441055743 / 18014398509481984)
   \<and> calculatePolygonArea (rotate 1
       [\<lparr>px = 3602879701896397 / 18014398509481984, py = 4278419646001971 / 2251799813685248\<rparr>,
        \<lparr>px = 3602879701896397 / 18014398509481984, py = 3602879701896397 / 9007199254740992\<rparr>,
        \<lparr>px = 3152519739159347 / 4503599627370496, py = 4278419646001971 / 2251799813685248\<rparr>])
     = Fin (3377699720527871 / 9007199254740992)
   \<and> calculatePolygonArea (rotate 2
       [\<lparr>px = 3602879701896397 / 18014398509481984, py = 4278419646001971 / 2251799813685248\<rparr>,
        \<lparr>px = 3602879701896397 / 18014398509481984, py = 3602879701896397 / 9007199254740992\<rparr>,
        \<lparr>px = 3152519739159347 / 4503599627370496, py = 4278419646001971 / 2251799813685248\<rparr>])
     = Fin (3 / 8)"
proof -
  have m0: "fmul (Fin (3602879701896397 / 18014398509481984))
        (Fin (3602879701896397 / 9007199254740992))
      = Fin (1441151880758559 / 18014398509481984)"
    unfolding fmul.simps by (rule toNum_evalI [of "- 4"]) (simp_all add: flt_eval)
  have m1: "fmul (Fin (3602879701896397 / 18014398509481984))
        (Fin (4278419646001971 / 2251799813685248))
      = Fin (3422735716801577 / 9007199254740992)"
    unfolding fmul.simps by (rule toNum_evalI [of "- 2"]) (simp_all add: flt_eval)
  have s2: "fsub (Fin (1441151880758559 / 18014398509481984))
        (Fin (3422735716801577 / 9007199254740992))
      = Fin (- (5404319552844595 / 18014398509481984))"
    unfolding fsub.simps by (rule toNum_evalI [of "- 2"]) (simp_all add: flt_eval)
  have a3: "fadd (Fin 0)
        (Fin (- (5404319552844595 / 18014398509481984)))
      = Fin (- (5404319552844595 / 18014398509481984))"
    unfolding fadd.simps by (rule toNum_evalI [of "- 2"]) (simp_all add: flt_eval)
  have m4: "fmul (Fin (3152519739159347 / 4503599627370496))
        (Fin (3602879701896397 / 9007199254740992))
      = Fin (5044031582654955 / 18014398509481984)"
    unfolding fmul.simps by (rule toNum_evalI [of "- 2"]) (simp_all add: flt_eval)
  have s5: "fsub (Fin (3422735716801577 / 9007199254740992))
        (Fin (5044031582654955 / 18014398509481984))
      = Fin (1801439850948199 / 18014398509481984)"
    unfolding fsub.simps by (rule toNum_evalI [of "- 4"]) (simp_all add: flt_eval)
  have a6: "fadd (Fin (- (5404319552844595 / 18014398509481984)))
        (Fin (1801439850948199 / 18014398509481984))
      = Fin (- (900719925474099 / 4503599627370496))"
    unfolding fadd.simps by (rule toNum_evalI [of "- 3"]) (simp_all add: flt_eval)
  have m7: "fmul (Fin (3152519739159347 / 4503599627370496))
        (Fin (4278419646001971 / 2251799813685248))
      = Fin (5989787504402759 / 4503599627370496)"
    unfolding fmul.simps by (rule toNum_evalI [of "0"]) (simp_all add: flt_eval)
  have s8: "fsub (Fin (5989787504402759 / 4503599627370496))
        (Fin (3422735716801577 / 9007199254740992))
      = Fin (8556839292003941 / 9007199254740992)"
    unfolding fsub.simps by (rule toNum_evalI [of "- 1"]) (simp_all add: flt_eval)
  have a9: "fadd (Fin (- (900719925474099 / 4503599627370496)))
        (Fin (8556839292003941 / 9007199254740992))
      = Fin (6755399441055743 / 9007199254740992)"
    unfolding fadd.simps by (rule toNum_evalI [of "- 1"]) (simp_all add: flt_eval)
  have a10: "fadd (Fin 0)
        (Fin (1801439850948199 / 18014398509481984))
      = Fin (1801439850948199 / 18014398509481984)"
    unfolding fadd.simps by (rule toNum_evalI [of "- 4"]) (simp_all add: flt_eval)
  have a11: "fadd (Fin (1801439850948199 / 18014398509481984))
        (Fin (8556839292003941 / 9007199254740992))
      = Fin (1182194902184755 / 1125899906842624)"
    unfolding fadd.simps by (rule toNum_evalI [of "0"]) (simp_all add: flt_eval)
  have a12: "fadd (Fin (1182194902184755 / 1125899906842624))
        (Fin (- (5404319552844595 / 18014398509481984)))
      = Fin (3377699720527871 / 4503599627370496)"
    unfolding fadd.simps by (rule toNum_evalI [of "- 1"]) (simp_all add: flt_eval)
  have a13: "fadd (Fin 0)
        (Fin (8556839292003941 / 9007199254740992))
      = Fin (8556839292003941 / 9007199254740992)"
    unfolding fadd.simps by (rule toNum_evalI [of "- 1"]) (simp_all add: flt_eval)
  have a14: "fadd (Fin (8556839292003941 / 9007199254740992))
        (Fin (- (5404319552844595 / 18014398509481984)))
      = Fin (1463669878895411 / 2251799813685248)"
    unfolding fadd.simps by (rule toNum_evalI [of "- 1"]) (simp_all add: flt_eval)
  have a15: "fadd (Fin (1463669878895411 / 2251799813685248))
        (Fin (1801439850948199 / 18014398509481984))
      = Fin (3 / 4)"
    unfolding fadd.simps by (rule toNum_evalI [of "- 1"]) (simp_all add: flt_eval)
  have h0: "toNum (6755399441055743 / 18014398509481984) = Fin (6755399441055743 / 18014398509481984)"
    by (rule toNum_evalI [of "- 2"]) (simp_all add: flt_eval)
  have h1: "toNum (3377699720527871 / 9007199254740992) = Fin (3377699720527871 / 9007199254740992)"
    by (rule toNum_evalI [of "- 2"]) (simp_all add: flt_eval)
  have h2: "toNum (3 / 8) = Fin (3 / 8)"
    by (rule toNum_evalI [of "- 2"]) (simp_all add: flt_eval)
  have r2: "rotate 2 [a, b, c] = [c, a, b]" for a b c :: Point
    by (simp add: numeral_2_eq_2)
  show ?thesis
    by (simp add: calculatePolygonArea_def shoelaceSum_foldl areaStep_def Let_def upt_rec r2
        h0 h1 h2 m0 m1 s2 a3 m4 s5 a6 m7 s8 a9 a10 a11 a12 a13 a14 a15
        del: fmul.simps fsub.simps fadd.simps)
qed

text \<open>
  C6, as the claim states it, fails in both halves. Reversal: \<^verbatim>\<open>calculatePolygonArea\<close>
  returns \<^verbatim>\<open>Math.abs(a / 2)\<close>, so the triangle (0,0), (1,0), (0,1) has area 1/2 in both
  orders, not opposite values. Rotation: the sum is accumulated in binary64 from left to
  right, so its value depends on where the list starts; the triangle (1,0),
  (-1, \<open>2\<^sup>5\<^sup>3\<close>), (0,-1) has the terms \<open>2\<^sup>5\<^sup>3\<close>, 1, 1, and
  \<open>(2\<^sup>5\<^sup>3 + 1) + 1\<close> rounds to \<open>2\<^sup>5\<^sup>3\<close> twice while \<open>(1 + 1) + 2\<^sup>5\<^sup>3\<close> is exact: the
  area is \<open>2\<^sup>5\<^sup>2\<close> for the list and \<open>2\<^sup>5\<^sup>2 + 1\<close> for its rotation by one.
\<close>

theorem calculatePolygonArea_counterexample:
  "calculatePolygonArea [\<lparr>px = 0, py = 0\<rparr>, \<lparr>px = 1, py = 0\<rparr>, \<lparr>px = 0, py = 1\<rparr>] = Fin (1 / 2)
   \<and> calculatePolygonArea (rev [\<lparr>px = 0, py = 0\<rparr>, \<lparr>px = 1, py = 0\<rparr>, \<lparr>px = 0, py = 1\<rparr>]) = Fin (1 / 2)
   \<and> calculatePolygonArea
        [\<lparr>px = 1, py = 0\<rparr>, \<lparr>px = - 1, py = 9007199254740992\<rparr>, \<lparr>px = 0, py = - 1\<rparr>]
       = Fin 4503599627370496
   \<and> calculatePolygonArea (rotate 1
        [\<lparr>px = 1, py = 0\<rparr>, \<lparr>px = - 1, py = 9007199254740992\<rparr>, \<lparr>px = 0, py = - 1\<rparr>])
       = Fin 4503599627370497"
  by (simp add: area_eval)

text \<open>
  C6 (amended): \<^verbatim>\<open>Utils.calculatePolygonArea\<close> never returns a negative value, so a list
  and its reversal never give values of opposite sign. For every point list with integer
  coordinates of magnitude at most \<open>B\<close> and with \<open>length * 2 * B\<^sup>2 \<le> 2\<^sup>5\<^sup>2\<close>, where no
  operation of the loop rounds, it returns the exact shoelace area, the same value for
  every cyclic rotation of the list and for the reversed list; there the signed sum
  accumulated by the loop, before \<^verbatim>\<open>Math.abs\<close>, keeps its magnitude and changes its sign
  under reversal.
\<close>

theorem calculatePolygonArea_rotate_rev:
  "\<not> numLess (calculatePolygonArea ps) (Fin 0)
   \<and> (smallInts B ps \<longrightarrow>
        calculatePolygonArea ps = Fin \<bar>exactShoelaceSum ps / 2\<bar>
      \<and> calculatePolygonArea (rotate k ps) = calculatePolygonArea ps
      \<and> calculatePolygonArea (rev ps) = calculatePolygonArea ps
      \<and> shoelaceSum ps = Fin (exactShoelaceSum ps)
      \<and> shoelaceSum (rev ps) = Fin (- exactShoelaceSum ps))"
proof -
  have a: "\<not> numLess (calculatePolygonArea ps) (Fin 0)"
    by (simp add: calculatePolygonArea_def fabs_not_negative)
  have b: "calculatePolygonArea ps = Fin \<bar>exactShoelaceSum ps / 2\<bar>
      \<and> calculatePolygonArea (rotate k ps) = calculatePolygonArea ps
      \<and> calculatePolygonArea (rev ps) = calculatePolygonArea ps
      \<and> shoelaceSum ps = Fin (exactShoelaceSum ps)
      \<and> shoelaceSum (rev ps) = Fin (- exactShoelaceSum ps)" if s: "smallInts B ps"
  proof -
    have r: "smallInts B (rotate k ps)" using s by (simp only: smallInts_rotate)
    have v: "smallInts B (rev ps)" using s by (simp only: smallInts_rev)
    show ?thesis
      using calculatePolygonArea_exact [OF s] calculatePolygonArea_exact [OF r]
        calculatePolygonArea_exact [OF v] shoelaceSum_exact(1) [OF s] shoelaceSum_exact(1) [OF v]
      by (simp add: exactShoelaceSum_rotate exactShoelaceSum_rev)
  qed
  show ?thesis using a b by blast
qed

theorem calculatePolygonArea_rotate_rev_witness:
  "smallInts 3 [\<lparr>px = 0, py = 0\<rparr>, \<lparr>px = 2, py = 0\<rparr>, \<lparr>px = 0, py = 3\<rparr>]
   \<and> calculatePolygonArea [\<lparr>px = 0, py = 0\<rparr>, \<lparr>px = 2, py = 0\<rparr>, \<lparr>px = 0, py = 3\<rparr>] = Fin 3
   \<and> calculatePolygonArea (rotate 1 [\<lparr>px = 0, py = 0\<rparr>, \<lparr>px = 2, py = 0\<rparr>, \<lparr>px = 0, py = 3\<rparr>]) = Fin 3
   \<and> calculatePolygonArea (rev [\<lparr>px = 0, py = 0\<rparr>, \<lparr>px = 2, py = 0\<rparr>, \<lparr>px = 0, py = 3\<rparr>]) = Fin 3
   \<and> shoelaceSum (rev [\<lparr>px = 0, py = 0\<rparr>, \<lparr>px = 2, py = 0\<rparr>, \<lparr>px = 0, py = 3\<rparr>]) = Fin (- 6)"
proof -
  let ?T = "[\<lparr>px = 0, py = 0\<rparr>, \<lparr>px = 2, py = 0\<rparr>, \<lparr>px = 0, py = 3\<rparr>]"
  have s: "smallInts 3 ?T" by (simp add: smallInts_def)
  have e: "exactShoelaceSum ?T = 6" by (simp add: exactShoelaceSum_def upt_rec)
  show ?thesis
    using s e calculatePolygonArea_rotate_rev [of ?T 3 1] by simp
qed

subsection \<open>Statistics\<close>

lemma fsub_pos_doubles:
  assumes "isDouble u" "isDouble v" "0 < u" "0 < v"
  shows "fsub (Fin u) (Fin v) = Fin (round64 (u - v))"
    and "(round64 (u - v) \<le> 0) = (u \<le> v)"
proof -
  show "fsub (Fin u) (Fin v) = Fin (round64 (u - v))"
    using isDouble_no_overflow(1) [OF isDouble_minus [OF assms(2)] assms(1), of "u - v"] assms(3,4)
    by simp
  show "(round64 (u - v) \<le> 0) = (u \<le> v)"
  proof
    assume "round64 (u - v) \<le> 0"
    then have "\<not> v < u" using round64_diff_pos [of u v] assms(1,2) by (auto simp: isDouble_def)
    then show "u \<le> v" by simp
  next
    assume "u \<le> v"
    then have "round64 (u - v) \<le> round64 0" by (intro round64_mono) simp
    then show "round64 (u - v) \<le> 0" by simp
  qed
qed

lemma cmp_iff_numLe:
  assumes "posDouble a" "posDouble b"
  shows "(cmpValue (fsub a b) \<le> 0) = numLe a b"
  using assms fsub_pos_doubles
  by (auto simp: posDouble_def cmpValue_def)

lemma numLe_total: "posDouble a \<Longrightarrow> posDouble b \<Longrightarrow> numLe a b \<or> numLe b a"
  by (auto simp: posDouble_def)

lemma numLe_trans: "numLe a b \<Longrightarrow> numLe b c \<Longrightarrow> numLe a c"
  by (cases a; cases b; cases c) simp_all

lemma numLe_refl: "posDouble a \<Longrightarrow> numLe a a"
  by (auto simp: posDouble_def)

lemma mset_insort_by: "mset (insort_by cmp a bs) = add_mset a (mset bs)"
  by (induction bs) simp_all

lemma mset_sort_by: "mset (sort_by cmp xs) = mset xs"
  by (induction xs) (simp_all add: sort_by_def mset_insort_by)

lemma set_insort_by: "set (insort_by cmp a bs) = insert a (set bs)"
  using mset_insort_by [of cmp a bs] by (metis set_mset_add_mset_insert set_mset_mset)

lemma set_sort_by: "set (sort_by cmp xs) = set xs"
  using mset_sort_by [of cmp xs] by (metis set_mset_mset)

lemma sorted_insort_by_on:
  assumes eq: "\<And>x y. x \<in> S \<Longrightarrow> y \<in> S \<Longrightarrow> (cmp x y \<le> 0) = le x y"
    and tot: "\<And>x y. x \<in> S \<Longrightarrow> y \<in> S \<Longrightarrow> le x y \<or> le y x"
    and tr: "\<And>x y z. le x y \<Longrightarrow> le y z \<Longrightarrow> le x z"
    and a: "a \<in> S"
  shows "set bs \<subseteq> S \<Longrightarrow> sorted_wrt le bs \<Longrightarrow> sorted_wrt le (insort_by cmp a bs)"
proof (induction bs)
  case Nil
  then show ?case by simp
next
  case (Cons b bs)
  have b: "b \<in> S" using Cons.prems(1) by simp
  show ?case
  proof (cases "cmp a b \<le> 0")
    case True
    then have ab: "le a b" using eq [OF a b] by simp
    then have "\<forall>x\<in>set bs. le a x" using Cons.prems(2) tr by auto
    then show ?thesis using True ab Cons.prems(2) by simp
  next
    case False
    then have "\<not> le a b" using eq [OF a b] by simp
    then have "le b a" using tot [OF a b] by blast
    moreover have "sorted_wrt le (insort_by cmp a bs)"
      using Cons by simp
    ultimately show ?thesis using False Cons.prems(2) by (auto simp: set_insort_by)
  qed
qed

lemma sorted_sort_by_on:
  assumes eq: "\<And>x y. x \<in> S \<Longrightarrow> y \<in> S \<Longrightarrow> (cmp x y \<le> 0) = le x y"
    and tot: "\<And>x y. x \<in> S \<Longrightarrow> y \<in> S \<Longrightarrow> le x y \<or> le y x"
    and tr: "\<And>x y z. le x y \<Longrightarrow> le y z \<Longrightarrow> le x z"
  shows "set xs \<subseteq> S \<Longrightarrow> sorted_wrt le (sort_by cmp xs)"
proof (induction xs)
  case Nil
  show ?case by (simp add: sort_by_def)
next
  case (Cons x xs)
  have s: "sort_by cmp (x # xs) = insort_by cmp x (sort_by cmp xs)" by (simp add: sort_by_def)
  have "sorted_wrt le (sort_by cmp xs)" using Cons by simp
  moreover have "set (sort_by cmp xs) \<subseteq> S" using Cons.prems by (simp add: set_sort_by)
  moreover have "x \<in> S" using Cons.prems by simp
  ultimately show ?case
    unfolding s using sorted_insort_by_on [of S cmp le x "sort_by cmp xs"] eq tot tr by blast
qed

lemma sorted_wrt_hd_last:
  assumes "sorted_wrt le xs" and refl: "\<And>x. x \<in> set xs \<Longrightarrow> le x x" and "x \<in> set xs"
  shows "le (hd xs) x" and "le x (last xs)"
proof -
  show "le (hd xs) x" using assms by (cases xs) auto
  show "le x (last xs)" using assms(1,3) refl
  proof (induction xs)
    case Nil
    then show ?case by simp
  next
    case (Cons a xs)
    then show ?case by (cases "xs = []") auto
  qed
qed

lemma valid_posDouble:
  assumes "doubleAreas pf m" "r \<in> set (validData pf m)"
  shows "posDouble (pf (area r))"
proof -
  have v: "numLess (Fin 0) (pf (area r))" and mem: "r \<in> set (map snd m)"
    using assms(2) by (auto simp: validData_def isValid_def)
  show ?thesis
  proof (cases "pf (area r)")
    case (Fin x)
    then have "isDouble x" using assms(1) mem by (auto simp: doubleAreas_def)
    then show ?thesis using v Fin by (simp add: posDouble_def)
  qed (use v in \<open>simp_all add: posDouble_def\<close>)
qed

lemma sorted_valid:
  assumes "doubleAreas pf m"
  shows "sorted_wrt (leArea pf) (sort_by (cmpArea pf) (validData pf m))"
proof (rule sorted_sort_by_on [where S = "set (validData pf m)"])
  fix x y assume "x \<in> set (validData pf m)" "y \<in> set (validData pf m)"
  then have p: "posDouble (pf (area x))" "posDouble (pf (area y))"
    using valid_posDouble [OF assms] by blast+
  show "(cmpArea pf x y \<le> 0) = leArea pf x y"
    using cmp_iff_numLe [OF p] by (simp add: cmpArea_def leArea_def)
  show "leArea pf x y \<or> leArea pf y x"
    using numLe_total [OF p] by (simp add: leArea_def)
next
  fix x y z assume "leArea pf x y" "leArea pf y z"
  then show "leArea pf x z" using numLe_trans by (auto simp: leArea_def)
qed simp

lemma sort_by_nonempty: "2 \<le> length xs \<Longrightarrow> sort_by cmp xs \<noteq> []"
  using mset_sort_by [of cmp xs] by (metis length_0_conv mset.simps(1) mset_eq_length not_numeral_le_zero size_mset)

lemma calculateStats_normal_eq:
  assumes two: "2 \<le> length (validData pf m)"
  shows "calculateStats pf m =
     (let srt = sort_by (cmpArea pf) (validData pf m);
          mn = pf (area (hd srt)); mx = pf (area (last srt));
          p = fmul (fdiv (fsub mx mn) mx) (Fin 100)
      in \<lparr>smallest = hd srt, largest = last srt, obstructionPercent = p,
          voteScore = (if numLess (Fin 75) p then 2 else if numLe (Fin 50) p then 1 else 0),
          error = None\<rparr>)"
proof -
  let ?srt = "sort_by (cmpArea pf) (validData pf m)"
  have ne: "?srt \<noteq> []" using two by (rule sort_by_nonempty)
  have h: "?srt ! 0 = hd ?srt" using ne by (simp add: hd_conv_nth)
  have l: "?srt ! (length ?srt - 1) = last ?srt" using ne by (simp add: last_conv_nth)
  have "last ?srt \<in> set (validData pf m)"
    using last_in_set [OF ne] by (simp add: set_sort_by)
  then have c: "numLess (Fin 0) (pf (area (last ?srt)))"
    by (simp add: validData_def isValid_def)
  have "\<not> length (validData pf m) < 2" using two by simp
  then show ?thesis
    unfolding calculateStats_def Let_def
    by (simp only: if_False h l c if_True)
qed

lemma validData_positiveArea:
  assumes "pf [] = NaN"
  shows "validData pf m = filter (positiveArea pf) (map snd m)"
proof -
  have "isValid pf r = positiveArea pf r" for r
    using assms by (cases "area r = []") (simp_all add: isValid_def positiveArea_def)
  then have "isValid pf = positiveArea pf" by (intro ext)
  then show ?thesis by (simp add: validData_def)
qed

lemma vote_one_iff:
  "(\<not> numLess (Fin 75) p \<and> numLe (Fin 50) p) = (numLe (Fin 50) p \<and> numLe p (Fin 75))"
  by (cases p) auto

lemma calculateStats_normal_filtered:
  assumes d: "doubleAreas pf m" and two: "2 \<le> length (validData pf m)"
  shows "\<exists>srt p.
           srt = sort_by (cmpArea pf) (validData pf m)
         \<and> sorted_wrt (\<lambda>a b. numLe (pf (area a)) (pf (area b))) srt
         \<and> mset srt = mset (validData pf m)
         \<and> smallest (calculateStats pf m) = hd srt
         \<and> largest (calculateStats pf m) = last srt
         \<and> (\<forall>r \<in> set (validData pf m).
                numLe (pf (area (hd srt))) (pf (area r)) \<and> numLe (pf (area r)) (pf (area (last srt))))
         \<and> obstructionPercent (calculateStats pf m) = p
         \<and> p = (if pf (area (last srt)) = Fin 0 then Fin 0
                 else fmul (fdiv (fsub (pf (area (last srt))) (pf (area (hd srt))))
                                 (pf (area (last srt)))) (Fin 100))
         \<and> (voteScore (calculateStats pf m) = 2 \<longleftrightarrow> numLess (Fin 75) p)
         \<and> (voteScore (calculateStats pf m) = 1 \<longleftrightarrow> numLe (Fin 50) p \<and> numLe p (Fin 75))
         \<and> (voteScore (calculateStats pf m) = 0 \<longleftrightarrow>
               \<not> numLess (Fin 75) p \<and> \<not> (numLe (Fin 50) p \<and> numLe p (Fin 75)))
         \<and> error (calculateStats pf m) = None"
proof -
  let ?srt = "sort_by (cmpArea pf) (validData pf m)"
  let ?mn = "pf (area (hd ?srt))"
  let ?mx = "pf (area (last ?srt))"
  let ?p = "fmul (fdiv (fsub ?mx ?mn) ?mx) (Fin 100)"
  have ne: "?srt \<noteq> []" using two by (rule sort_by_nonempty)
  have srt: "sorted_wrt (\<lambda>a b. numLe (pf (area a)) (pf (area b))) ?srt"
    using sorted_valid [OF d] by (simp add: leArea_def [abs_def])
  have ms: "mset ?srt = mset (validData pf m)" by (rule mset_sort_by)
  have refl: "numLe (pf (area x)) (pf (area x))" if "x \<in> set ?srt" for x
    using that valid_posDouble [OF d] numLe_refl by (simp add: set_sort_by)
  have rng: "\<forall>r \<in> set (validData pf m). numLe ?mn (pf (area r)) \<and> numLe (pf (area r)) ?mx"
  proof
    fix r assume "r \<in> set (validData pf m)"
    then have r: "r \<in> set ?srt" by (simp add: set_sort_by)
    show "numLe ?mn (pf (area r)) \<and> numLe (pf (area r)) ?mx"
      using sorted_wrt_hd_last [OF srt refl r] by simp
  qed
  have "last ?srt \<in> set (validData pf m)" using last_in_set [OF ne] by (simp add: set_sort_by)
  then have "numLess (Fin 0) ?mx" by (simp add: validData_def isValid_def)
  then have nz: "?mx \<noteq> Fin 0" by auto
  have eq: "calculateStats pf m =
      \<lparr>smallest = hd ?srt, largest = last ?srt, obstructionPercent = ?p,
       voteScore = (if numLess (Fin 75) ?p then 2 else if numLe (Fin 50) ?p then 1 else 0),
       error = None\<rparr>"
    using calculateStats_normal_eq [OF two] by (simp add: Let_def)
  have sel: "smallest (calculateStats pf m) = hd ?srt" "largest (calculateStats pf m) = last ?srt"
    "obstructionPercent (calculateStats pf m) = ?p" "error (calculateStats pf m) = None"
    by (simp_all add: eq)
  have p: "?p = (if ?mx = Fin 0 then Fin 0 else ?p)" using nz by simp
  have v: "voteScore (calculateStats pf m)
      = (if numLess (Fin 75) ?p then 2 else if numLe (Fin 50) ?p then 1 else 0)"
    by (simp add: eq)
  have v2: "voteScore (calculateStats pf m) = 2 \<longleftrightarrow> numLess (Fin 75) ?p"
    unfolding v by simp
  have v1: "voteScore (calculateStats pf m) = 1 \<longleftrightarrow> numLe (Fin 50) ?p \<and> numLe ?p (Fin 75)"
    unfolding v using vote_one_iff [of ?p] by auto
  have v0: "voteScore (calculateStats pf m) = 0 \<longleftrightarrow>
      \<not> numLess (Fin 75) ?p \<and> \<not> (numLe (Fin 50) ?p \<and> numLe ?p (Fin 75))"
    unfolding v using vote_one_iff [of ?p] by auto
  show ?thesis
    by (intro exI [of _ ?srt] exI [of _ ?p] conjI refl srt ms sel rng p v2 v1 v0) simp
qed

text \<open>
  C2: \<^verbatim>\<open>parseFloat\<close> of the empty string is \<^verbatim>\<open>NaN\<close>, and a finite number it returns is a
  double. For every collection with at least two records of positive parsed area,
  \<^verbatim>\<open>calculateStats\<close> sorts the valid records ascending by parsed area (the sorted list is
  a permutation of the valid records), returns the first as \<open>smallest\<close> and the last as
  \<open>largest\<close>, whose areas bound the area of every valid record, sets \<open>obstructionPercent\<close>
  to \<open>(largestArea - smallestArea) / largestArea * 100\<close> as JavaScript computes it, each
  operation rounded (0 if \<open>largestArea\<close> is 0), and sets \<open>voteScore\<close> to 2 exactly when that
  number is above 75, to 1 exactly when it is between 50 and 75 inclusive, and to 0
  otherwise; no error marker is set. The example of the claim, areas 100000 and 25000,
  gives 75 and a score of 1.
\<close>

theorem calculateStats_normal:
  assumes "pf [] = NaN" and "doubleAreas pf m"
    and "2 \<le> length (filter (positiveArea pf) (map snd m))"
  shows "\<exists>srt p.
           srt = sort_by (cmpArea pf) (filter (positiveArea pf) (map snd m))
         \<and> sorted_wrt (\<lambda>a b. numLe (pf (area a)) (pf (area b))) srt
         \<and> mset srt = mset (filter (positiveArea pf) (map snd m))
         \<and> smallest (calculateStats pf m) = hd srt
         \<and> largest (calculateStats pf m) = last srt
         \<and> (\<forall>r \<in> set (filter (positiveArea pf) (map snd m)).
                numLe (pf (area (hd srt))) (pf (area r)) \<and> numLe (pf (area r)) (pf (area (last srt))))
         \<and> obstructionPercent (calculateStats pf m) = p
         \<and> p = (if pf (area (last srt)) = Fin 0 then Fin 0
                 else fmul (fdiv (fsub (pf (area (last srt))) (pf (area (hd srt))))
                                 (pf (area (last srt)))) (Fin 100))
         \<and> (voteScore (calculateStats pf m) = 2 \<longleftrightarrow> numLess (Fin 75) p)
         \<and> (voteScore (calculateStats pf m) = 1 \<longleftrightarrow> numLe (Fin 50) p \<and> numLe p (Fin 75))
         \<and> (voteScore (calculateStats pf m) = 0 \<longleftrightarrow>
               \<not> numLess (Fin 75) p \<and> \<not> (numLe (Fin 50) p \<and> numLe p (Fin 75)))
         \<and> error (calculateStats pf m) = None"
proof -
  have vd: "validData pf m = filter (positiveArea pf) (map snd m)"
    using assms(1) by (rule validData_positiveArea)
  show ?thesis
    using assms(2,3) by (rule calculateStats_normal_filtered [of pf m, unfolded vd])
qed

lemma toNum_3_4: "toNum (3 / 4) = Fin (3 / 4)"
  by (rule toNum_evalI [of "- 1"]) (simp_all add: flt_eval)

lemmas stats_eval = calculateStats_def validData_def isValid_def cmpArea_def cmpValue_def sort_by_def
  parseDecimal_def isDigit_def digitVal_def sampleRecord_def Let_def toNum_numeral toNum_3_4

theorem calculateStats_normal_witness:
  "parseDecimal [] = NaN
   \<and> doubleAreas parseDecimal [(0, sampleRecord 0 ''100000''), (1, sampleRecord 1 ''25000'')]
   \<and> 2 \<le> length (filter (positiveArea parseDecimal)
            (map snd [(0, sampleRecord 0 ''100000''), (1, sampleRecord 1 ''25000'')]))
   \<and> obstructionPercent (calculateStats parseDecimal
         [(0, sampleRecord 0 ''100000''), (1, sampleRecord 1 ''25000'')]) = Fin 75
   \<and> voteScore (calculateStats parseDecimal
         [(0, sampleRecord 0 ''100000''), (1, sampleRecord 1 ''25000'')]) = 1
   \<and> smallest (calculateStats parseDecimal
         [(0, sampleRecord 0 ''100000''), (1, sampleRecord 1 ''25000'')]) = sampleRecord 1 ''25000''
   \<and> largest (calculateStats parseDecimal
         [(0, sampleRecord 0 ''100000''), (1, sampleRecord 1 ''25000'')]) = sampleRecord 0 ''100000''
   \<and> error (calculateStats parseDecimal
         [(0, sampleRecord 0 ''100000''), (1, sampleRecord 1 ''25000'')]) = None"
proof -
  let ?m = "[(0, sampleRecord 0 ''100000''), (1, sampleRecord 1 ''25000'')]"
  have h0: "parseDecimal [] = NaN" by (simp add: parseDecimal_def)
  have p1: "parseDecimal ''100000'' = Fin 100000" "parseDecimal ''25000'' = Fin 25000"
    by (simp_all add: parseDecimal_def isDigit_def digitVal_def toNum_numeral)
  have h1: "doubleAreas parseDecimal ?m"
    by (auto simp: doubleAreas_def sampleRecord_def p1 isDouble_numeral)
  have h: "2 \<le> length (filter (positiveArea parseDecimal) (map snd ?m))"
    by (simp add: positiveArea_def sampleRecord_def p1)
  have e: "error (calculateStats parseDecimal ?m) = None"
    using calculateStats_normal [OF h0 h1 h] by blast
  have "obstructionPercent (calculateStats parseDecimal ?m) = Fin 75"
    "voteScore (calculateStats parseDecimal ?m) = 1"
    "smallest (calculateStats parseDecimal ?m) = sampleRecord 1 ''25000''"
    "largest (calculateStats parseDecimal ?m) = sampleRecord 0 ''100000''"
    by (simp_all add: stats_eval)
  then show ?thesis using h0 h1 h e by blast
qed

lemma toNum_2_5: "toNum (2 / 5) = Fin (3602879701896397 / 9007199254740992)"
  by (rule toNum_evalI [of "- 2"]) (simp_all add: flt_eval)

lemma toNum_1_10: "toNum (1 / 10) = Fin (3602879701896397 / 36028797018963968)"
  by (rule toNum_evalI [of "- 4"]) (simp_all add: flt_eval)

lemma toNum_diff: "toNum (10808639105689191 / 36028797018963968)
    = Fin (1351079888211149 / 4503599627370496)"
  by (rule toNum_evalI [of "- 2"]) (simp_all add: flt_eval)

lemma toNum_quot: "toNum (2702159776422298 / 3602879701896397)
    = Fin (6755399441055745 / 9007199254740992)"
  by (rule toNum_evalI [of "- 1"]) (simp_all add: flt_eval)

lemma toNum_prod: "toNum (168884986026393625 / 2251799813685248)
    = Fin (5277655813324801 / 70368744177664)"
  by (rule toNum_evalI [of 6]) (simp_all add: flt_eval)

text \<open>
  The formula is the computed one: for the areas 0.4 and 0.1 the three rounded operations
  give \<open>75 + 2\<^sup>-\<^sup>4\<^sup>6\<close> (printed 75.00000000000001) and a score of 2, where the quotient
  in exact arithmetic is 75.
\<close>

lemma calculateStats_boundary_rounding:
  "obstructionPercent (calculateStats parseDecimal
      [(0, sampleRecord 0 ''0.4''), (1, sampleRecord 1 ''0.1'')]) = Fin (75 + 1 / 2 ^ 46)
   \<and> voteScore (calculateStats parseDecimal
      [(0, sampleRecord 0 ''0.4''), (1, sampleRecord 1 ''0.1'')]) = 2"
proof -
  have p: "parseDecimal ''0.4'' = Fin (3602879701896397 / 9007199254740992)"
    "parseDecimal ''0.1'' = Fin (3602879701896397 / 36028797018963968)"
    by (simp_all add: parseDecimal_def isDigit_def digitVal_def toNum_2_5 toNum_1_10)
  show ?thesis
    by (simp add: calculateStats_def validData_def isValid_def cmpArea_def cmpValue_def sort_by_def
        sampleRecord_def Let_def p toNum_diff toNum_quot toNum_prod)
qed

lemma calculateStats_degenerate_filtered:
  assumes "length (validData pf m) < 2"
  shows "error (calculateStats pf m) = Some statsErrorMessage
       \<and> statsErrorMessage \<noteq> []
       \<and> obstructionPercent (calculateStats pf m) = Fin 0
       \<and> voteScore (calculateStats pf m) = 0
       \<and> (\<forall>r. validData pf m = [r] \<longrightarrow>
             smallest (calculateStats pf m) = r \<and> largest (calculateStats pf m) = r)
       \<and> (validData pf m = [] \<longrightarrow>
             smallest (calculateStats pf m) =
               \<lparr>time = 0, area = ''0'', areaCategory = Some ''N/A'', polygon = [], box = None,
                srcDataUrl = [], obs_pct = Some 0, v_height = None, o_width = None\<rparr>
           \<and> largest (calculateStats pf m) = smallest (calculateStats pf m))"
proof -
  have "statsErrorMessage \<noteq> []" by (simp add: statsErrorMessage_def)
  then show ?thesis using assms
    by (simp add: calculateStats_def Let_def placeholderData_def)
qed

text \<open>
  C7: \<^verbatim>\<open>parseFloat\<close> of the empty string is \<^verbatim>\<open>NaN\<close>. For every collection with fewer than
  two records of positive parsed area, \<^verbatim>\<open>calculateStats\<close> returns a stats object (the
  function is total: there is no failing path) with a non-empty error marker, percentage
  0 and score 0, whose \<open>smallest\<close> and \<open>largest\<close> are the single valid record when there is
  exactly one, and the placeholder record (time 0, area "0", category "N/A", no polygon,
  no box, empty image) when there is none.
\<close>

theorem calculateStats_degenerate:
  assumes "pf [] = NaN" and "length (filter (positiveArea pf) (map snd m)) < 2"
  shows "error (calculateStats pf m) = Some statsErrorMessage
       \<and> statsErrorMessage \<noteq> []
       \<and> obstructionPercent (calculateStats pf m) = Fin 0
       \<and> voteScore (calculateStats pf m) = 0
       \<and> (\<forall>r. filter (positiveArea pf) (map snd m) = [r] \<longrightarrow>
             smallest (calculateStats pf m) = r \<and> largest (calculateStats pf m) = r)
       \<and> (filter (positiveArea pf) (map snd m) = [] \<longrightarrow>
             smallest (calculateStats pf m) =
               \<lparr>time = 0, area = ''0'', areaCategory = Some ''N/A'', polygon = [], box = None,
                srcDataUrl = [], obs_pct = Some 0, v_height = None, o_width = None\<rparr>
           \<and> largest (calculateStats pf m) = smallest (calculateStats pf m))"
proof -
  have vd: "validData pf m = filter (positiveArea pf) (map snd m)"
    using assms(1) by (rule validData_positiveArea)
  show ?thesis
    using assms(2) by (rule calculateStats_degenerate_filtered [of pf m, unfolded vd])
qed

lemma toNum_12005: "toNum (2401 / 2) = Fin (2401 / 2)"
  by (rule toNum_evalI [of 10]) (simp_all add: flt_eval)

theorem calculateStats_degenerate_witness:
  "parseDecimal [] = NaN
   \<and> length (filter (positiveArea parseDecimal) (map snd [])) < 2
   \<and> length (filter (positiveArea parseDecimal)
        (map snd [(3, sampleRecord 3 ''1200.5''), (4, sampleRecord 4 ''0'')])) < 2
   \<and> error (calculateStats parseDecimal []) = Some statsErrorMessage
   \<and> area (smallest (calculateStats parseDecimal [])) = ''0''
   \<and> error (calculateStats parseDecimal [(3, sampleRecord 3 ''1200.5''), (4, sampleRecord 4 ''0'')])
        = Some statsErrorMessage
   \<and> largest (calculateStats parseDecimal [(3, sampleRecord 3 ''1200.5''), (4, sampleRecord 4 ''0'')])
        = sampleRecord 3 ''1200.5''"
proof -
  let ?m = "[(3, sampleRecord 3 ''1200.5''), (4, sampleRecord 4 ''0'')]"
  have p0: "parseDecimal [] = NaN" by (simp add: parseDecimal_def)
  have p: "parseDecimal ''1200.5'' = Fin (2401 / 2)" "parseDecimal ''0'' = Fin 0"
    by (simp_all add: parseDecimal_def isDigit_def digitVal_def toNum_12005)
  have v0: "filter (positiveArea parseDecimal) (map snd []) = []" by simp
  have v1: "filter (positiveArea parseDecimal) (map snd ?m) = [sampleRecord 3 ''1200.5'']"
    by (simp add: positiveArea_def sampleRecord_def p)
  have h0: "length (filter (positiveArea parseDecimal) (map snd [])) < 2" by simp
  have h1: "length (filter (positiveArea parseDecimal) (map snd ?m)) < 2" by (simp only: v1) simp
  show ?thesis
    using p0 h0 h1 calculateStats_degenerate [OF p0 h0] calculateStats_degenerate [OF p0 h1] v0 v1
    by simp
qed

lemma finiteAreas_doubleAreas: "finiteAreas pf m \<Longrightarrow> doubleAreas pf m"
  by (fastforce simp: finiteAreas_def doubleAreas_def)

lemma percent_range:
  assumes a: "isDouble a" "0 < a" and b: "isDouble b" and ab: "a \<le> b"
  shows "\<exists>p. fmul (fdiv (fsub (Fin b) (Fin a)) (Fin b)) (Fin 100) = Fin p \<and> 0 \<le> p \<and> p \<le> 100"
proof -
  let ?d = "round64 (b - a)"
  have d: "toNum (b - a) = Fin ?d" "0 \<le> ?d" "?d \<le> b"
    using isDouble_no_overflow [OF isDouble_0 b, of "b - a"] a(2) ab by simp_all
  have bpos: "0 < b" using a(2) ab by simp
  let ?q = "round64 (?d / b)"
  have "0 \<le> ?d / b" "?d / b \<le> 1" using d(2,3) bpos by (simp_all add: zero_le_divide_iff)
  then have q: "toNum (?d / b) = Fin ?q" "0 \<le> ?q" "?q \<le> 1"
    using isDouble_no_overflow [OF isDouble_0 isDouble_1, of "?d / b"] by simp_all
  let ?p = "round64 (?q * 100)"
  have "0 \<le> ?q * 100" "?q * 100 \<le> 100" using q(2,3) by simp_all
  then have p: "toNum (?q * 100) = Fin ?p" "0 \<le> ?p" "?p \<le> 100"
    using isDouble_no_overflow [OF isDouble_0 isDouble_100, of "?q * 100"] by simp_all
  have "fmul (fdiv (fsub (Fin b) (Fin a)) (Fin b)) (Fin 100) = Fin ?p"
    using bpos by (simp add: d(1) q(1) p(1))
  then show ?thesis using p(2,3) by blast
qed




subsection \<open>Polyline simplification\<close>

lemma farthest_foldl: "farthest d points = foldl (farStep d points) (0, 0) [1..<length points - 1]"
  by (simp add: farthest_def farStep_def)

lemma farStep_inv: "farInv e s \<Longrightarrow> 1 \<le> i \<Longrightarrow> i < e \<Longrightarrow> farInv e (farStep d points s i)"
  by (cases s) (auto simp: farInv_def farStep_def Let_def)

lemma foldl_farStep_inv:
  "farInv e s \<Longrightarrow> \<forall>i\<in>set is. 1 \<le> i \<and> i < e \<Longrightarrow> farInv e (foldl (farStep d points) s is)"
  by (induction "is" arbitrary: s) (simp_all add: farStep_inv)

lemma farthest_range:
  assumes "farthest d points = (dmax, index)"
  shows "0 \<le> dmax" and "index = 0 \<or> (1 \<le> index \<and> index < length points - 1)"
    and "0 < dmax \<Longrightarrow> 1 \<le> index \<and> index < length points - 1"
proof -
  have "farInv (length points - 1) (0, 0)" by (simp add: farInv_def)
  then have "farInv (length points - 1) (farthest d points)"
    unfolding farthest_foldl by (rule foldl_farStep_inv) simp
  then have i: "farInv (length points - 1) (dmax, index)" using assms by simp
  show "0 \<le> dmax" using i by (simp add: farInv_def)
  show "index = 0 \<or> (1 \<le> index \<and> index < length points - 1)" using i by (simp add: farInv_def)
  show "0 < dmax \<Longrightarrow> 1 \<le> index \<and> index < length points - 1"
    using i by (auto simp: farInv_def)
qed

lemma keepsEnds_refl: "keepsEnds points points"
  by (simp add: keepsEnds_def)

lemma keepsEnds_pair:
  "3 \<le> length points \<Longrightarrow> keepsEnds points [points ! 0, points ! (length points - 1)]"
  by (cases points) (auto simp: keepsEnds_def last_conv_nth)

lemma keepsEnds_join:
  assumes ix: "1 \<le> index" "index < length points - 1"
    and r1: "keepsEnds (take (index + 1) points) res1"
    and r2: "keepsEnds (drop index points) res2"
  shows "keepsEnds points (take (length res1 - 1) res1 @ res2)"
proof -
  have n: "3 \<le> length points" using ix by simp
  have l1: "2 \<le> length (take (index + 1) points)" using ix by simp
  have l2: "2 \<le> length (drop index points)" using ix by simp
  have a: "2 \<le> length res1" "hd res1 = hd points"
    using r1 l1 ix by (auto simp: keepsEnds_def)
  have b: "2 \<le> length res2" "last res2 = last points"
    using r2 l2 ix by (auto simp: keepsEnds_def)
  have c: "take (length res1 - 1) res1 \<noteq> []" using a by auto
  then have "hd (take (length res1 - 1) res1 @ res2) = hd res1"
    using a by (simp add: hd_take)
  moreover have "res2 \<noteq> []" using b by auto
  ultimately show ?thesis using a b n by (auto simp: keepsEnds_def)
qed

lemma simplifyRDP_total:
  assumes "0 \<le> epsilon"
  shows "\<exists>r. simplifyRDP points epsilon = Some r \<and> keepsEnds points r"
proof (induction "length points" arbitrary: points rule: less_induct)
  case less
  show ?case
  proof (cases "length points < 3")
    case True
    then have "simplifyRDP points epsilon = Some points"
      by (subst simplifyRDP.simps) simp
    then show ?thesis using keepsEnds_refl by simp
  next
    case False
    let ?e = "length points - 1"
    obtain dmax index where f:
      "farthest (\<lambda>p. perpDist p (points ! 0) (points ! ?e)) points = (dmax, index)"
      by (cases "farthest (\<lambda>p. perpDist p (points ! 0) (points ! ?e)) points") blast
    show ?thesis
    proof (cases "dmax > epsilon")
      case True
      then have ix: "1 \<le> index" "index < ?e"
        using farthest_range(3) [OF f] assms by simp_all
      have d: "drop index (take (?e + 1) points) = drop index points" using False by simp
      have "length (take (index + 1) points) < length points" using ix by simp
      then obtain r1 where r1: "simplifyRDP (take (index + 1) points) epsilon = Some r1"
        "keepsEnds (take (index + 1) points) r1"
        using less by blast
      have "length (drop index points) < length points" using ix by simp
      then obtain r2 where r2: "simplifyRDP (drop index points) epsilon = Some r2"
        "keepsEnds (drop index points) r2"
        using less by blast
      have "simplifyRDP points epsilon = Some (take (length r1 - 1) r1 @ r2)"
        by (subst simplifyRDP.simps) (simp add: False f True d r1 r2 Let_def del: One_nat_def)
      then show ?thesis using keepsEnds_join [OF ix r1(2) r2(2)] by simp
    next
      case dm: False
      have "simplifyRDP points epsilon = Some [points ! 0, points ! ?e]"
        by (subst simplifyRDP.simps) (simp add: False f dm Let_def del: One_nat_def)
      then show ?thesis using keepsEnds_pair [of points] False by simp
    qed
  qed
qed

lemma simplifyRDP_AI_total:
  assumes "0 \<le> epsilon"
  shows "\<exists>r. simplifyRDP_AI points epsilon = Some r \<and> keepsEnds points r"
proof (induction "length points" arbitrary: points rule: less_induct)
  case less
  show ?case
  proof (cases "length points \<le> 2")
    case True
    then have "simplifyRDP_AI points epsilon = Some points"
      by (subst simplifyRDP_AI.simps) simp
    then show ?thesis using keepsEnds_refl by simp
  next
    case False
    let ?e = "length points - 1"
    obtain dmax index where f:
      "farthest (\<lambda>p. perpendicularDistance p (points ! 0) (points ! ?e)
          (Some (sqrt ((px (points ! 0) - px (points ! ?e))\<^sup>2 + (py (points ! 0) - py (points ! ?e))\<^sup>2)))) points = (dmax, index)"
      by (cases "farthest (\<lambda>p. perpendicularDistance p (points ! 0) (points ! ?e)
          (Some (sqrt ((px (points ! 0) - px (points ! ?e))\<^sup>2 + (py (points ! 0) - py (points ! ?e))\<^sup>2)))) points") blast
    show ?thesis
    proof (cases "dmax > epsilon")
      case True
      then have ix: "1 \<le> index" "index < ?e"
        using farthest_range(3) [OF f] assms by simp_all
      have "length (take (index + 1) points) < length points" using ix by simp
      then obtain r1 where r1: "simplifyRDP_AI (take (index + 1) points) epsilon = Some r1"
        "keepsEnds (take (index + 1) points) r1"
        using less by blast
      have "length (drop index points) < length points" using ix by simp
      then obtain r2 where r2: "simplifyRDP_AI (drop index points) epsilon = Some r2"
        "keepsEnds (drop index points) r2"
        using less by blast
      have "simplifyRDP_AI points epsilon = Some (take (length r1 - 1) r1 @ r2)"
        by (subst simplifyRDP_AI.simps) (simp add: False f True r1 r2 Let_def del: One_nat_def)
      then show ?thesis using keepsEnds_join [OF ix r1(2) r2(2)] by simp
    next
      case dm: False
      have "simplifyRDP_AI points epsilon = Some [points ! 0, points ! ?e]"
        by (subst simplifyRDP_AI.simps) (simp add: False f dm Let_def del: One_nat_def)
      then show ?thesis using keepsEnds_pair [of points] False by simp
    qed
  qed
qed

lemma keepsEnds_join0:
  assumes r1: "keepsEnds (take 1 points) res1" and r2: "keepsEnds points res2"
  shows "keepsEnds points (take (length res1 - 1) res1 @ res2)"
proof (cases "points = []")
  case True
  then show ?thesis by (simp add: keepsEnds_def)
next
  case False
  then have a: "res1 \<noteq> []" "hd res1 = hd points" using r1 by (auto simp: keepsEnds_def)
  have b: "res2 \<noteq> []" "hd res2 = hd points" "last res2 = last points"
    "2 \<le> length points \<longrightarrow> 2 \<le> length res2"
    using r2 False by (auto simp: keepsEnds_def)
  have "hd (take (length res1 - 1) res1 @ res2) = hd points"
  proof (cases "take (length res1 - 1) res1 = []")
    case True
    show ?thesis by (simp only: True append_Nil b)
  next
    case False
    then show ?thesis using a by (simp add: hd_take hd_append)
  qed
  then show ?thesis using b False by (auto simp: keepsEnds_def)
qed

lemma simplifyRDP_keepsEnds:
  assumes "simplifyRDP points epsilon = Some r"
  shows "keepsEnds points r"
proof (rule simplifyRDP.raw_induct [where P = "\<lambda>p e y. keepsEnds p y", OF _ assms], goal_cases)
  case (1 f points epsilon r)
  show ?case
  proof (cases "length points < 3")
    case True
    then show ?thesis using 1(2) keepsEnds_refl by simp
  next
    case False
    let ?e = "length points - 1"
    obtain dmax index where f:
      "farthest (\<lambda>p. perpDist p (points ! 0) (points ! ?e)) points = (dmax, index)"
      by (cases "farthest (\<lambda>p. perpDist p (points ! 0) (points ! ?e)) points") blast
    have d: "drop index (take (?e + 1) points) = drop index points" using False by simp
    show ?thesis
    proof (cases "dmax > epsilon")
      case True
      then have "f (take (index + 1) points) epsilon \<bind>
           (\<lambda>res1. f (drop index points) epsilon \<bind>
              (\<lambda>res2. Some (take (length res1 - 1) res1 @ res2))) = Some r"
        using 1(2) False f d by (simp add: Let_def del: One_nat_def)
      then obtain r1 r2 where r1: "f (take (index + 1) points) epsilon = Some r1"
        and r2: "f (drop index points) epsilon = Some r2"
        and r: "r = take (length r1 - 1) r1 @ r2"
        by (auto simp: bind_eq_Some_conv)
      have k1: "keepsEnds (take (index + 1) points) r1" using 1(1) r1 by blast
      have k2: "keepsEnds (drop index points) r2" using 1(1) r2 by blast
      show ?thesis
      proof (cases "index = 0")
        case True
        then show ?thesis using keepsEnds_join0 [of points r1 r2] k1 k2 r by simp
      next
        case False
        then have "1 \<le> index" "index < ?e" using farthest_range(2) [OF f] by simp_all
        then show ?thesis using keepsEnds_join k1 k2 r by blast
      qed
    next
      case dm: False
      then have "r = [points ! 0, points ! ?e]"
        using 1(2) False f by (simp add: Let_def del: One_nat_def)
      then show ?thesis using keepsEnds_pair [of points] False by simp
    qed
  qed
qed

lemma simplifyRDP_collinear_no_result:
  assumes "simplifyRDP points epsilon = Some r"
  shows "\<not> (points = collinear3 \<and> epsilon = - 1)"
proof (rule simplifyRDP.raw_induct
    [where P = "\<lambda>p e y. \<not> (p = collinear3 \<and> e = - 1)", OF _ assms], goal_cases)
  case (1 f points epsilon r)
  show ?case
  proof
    assume a: "points = collinear3 \<and> epsilon = - 1"
    have far: "farthest (\<lambda>p. perpDist p (collinear3 ! 0) (collinear3 ! 2)) collinear3 = (0, 0)"
      by (simp add: farthest_def collinear3_def perpDist_def hypot_def Let_def)
    have "f (take 1 collinear3) (- 1) \<bind>
           (\<lambda>res1. f collinear3 (- 1) \<bind>
              (\<lambda>res2. Some (take (length res1 - 1) res1 @ res2))) = Some r"
      using 1(2) a far by (simp add: collinear3_def Let_def)
    then obtain r2 where "f collinear3 (- 1) = Some r2"
      by (auto simp: bind_eq_Some_conv)
    then show False using 1(1) by blast
  qed
qed

lemma simplifyRDP_AI_keepsEnds:
  assumes "simplifyRDP_AI points epsilon = Some r"
  shows "keepsEnds points r"
proof (rule simplifyRDP_AI.raw_induct [where P = "\<lambda>p e y. keepsEnds p y", OF _ assms], goal_cases)
  case (1 f points epsilon r)
  show ?case
  proof (cases "length points \<le> 2")
    case True
    then show ?thesis using 1(2) keepsEnds_refl by simp
  next
    case False
    let ?e = "length points - 1"
    obtain dmax index where f:
      "farthest (\<lambda>p. perpendicularDistance p (points ! 0) (points ! ?e)
          (Some (sqrt ((px (points ! 0) - px (points ! ?e))\<^sup>2 + (py (points ! 0) - py (points ! ?e))\<^sup>2)))) points = (dmax, index)"
      by (cases "farthest (\<lambda>p. perpendicularDistance p (points ! 0) (points ! ?e)
          (Some (sqrt ((px (points ! 0) - px (points ! ?e))\<^sup>2 + (py (points ! 0) - py (points ! ?e))\<^sup>2)))) points") blast
    show ?thesis
    proof (cases "dmax > epsilon")
      case True
      then have "f (take (index + 1) points) epsilon \<bind>
           (\<lambda>res1. f (drop index points) epsilon \<bind>
              (\<lambda>res2. Some (take (length res1 - 1) res1 @ res2))) = Some r"
        using 1(2) False f by (simp add: Let_def del: One_nat_def)
      then obtain r1 r2 where r1: "f (take (index + 1) points) epsilon = Some r1"
        and r2: "f (drop index points) epsilon = Some r2"
        and r: "r = take (length r1 - 1) r1 @ r2"
        by (auto simp: bind_eq_Some_conv)
      have k1: "keepsEnds (take (index + 1) points) r1" using 1(1) r1 by blast
      have k2: "keepsEnds (drop index points) r2" using 1(1) r2 by blast
      show ?thesis
      proof (cases "index = 0")
        case True
        then show ?thesis using keepsEnds_join0 [of points r1 r2] k1 k2 r by simp
      next
        case False
        then have "1 \<le> index" "index < ?e" using farthest_range(2) [OF f] by simp_all
        then show ?thesis using keepsEnds_join k1 k2 r by blast
      qed
    next
      case dm: False
      then have "r = [points ! 0, points ! ?e]"
        using 1(2) False f by (simp add: Let_def del: One_nat_def)
      then show ?thesis using keepsEnds_pair [of points] False by simp
    qed
  qed
qed

lemma simplifyRDP_AI_collinear_no_result:
  assumes "simplifyRDP_AI points epsilon = Some r"
  shows "\<not> (points = collinear3 \<and> epsilon = - 1)"
proof (rule simplifyRDP_AI.raw_induct
    [where P = "\<lambda>p e y. \<not> (p = collinear3 \<and> e = - 1)", OF _ assms], goal_cases)
  case (1 f points epsilon r)
  show ?case
  proof
    assume a: "points = collinear3 \<and> epsilon = - 1"
    have far: "farthest (\<lambda>p. perpendicularDistance p (collinear3 ! 0) (collinear3 ! 2)
          (Some (sqrt ((px (collinear3 ! 0) - px (collinear3 ! 2))\<^sup>2
                       + (py (collinear3 ! 0) - py (collinear3 ! 2))\<^sup>2)))) collinear3 = (0, 0)"
      by (simp add: farthest_def collinear3_def perpendicularDistance_def Let_def)
    have "f (take 1 collinear3) (- 1) \<bind>
           (\<lambda>res1. f collinear3 (- 1) \<bind>
              (\<lambda>res2. Some (take (length res1 - 1) res1 @ res2))) = Some r"
      using 1(2) a far by (simp add: collinear3_def Let_def)
    then obtain r2 where "f collinear3 (- 1) = Some r2"
      by (auto simp: bind_eq_Some_conv)
    then show False using 1(1) by blast
  qed
qed

lemma hypot_axis: "hypot a 0 = \<bar>a\<bar>"
  by (simp add: hypot_def)

text \<open>
  C3, as the claim states it for every epsilon, fails: with a negative epsilon and three
  collinear points every distance is 0, the test \<^verbatim>\<open>dmax > epsilon\<close> succeeds with
  \<open>index = 0\<close>, and the second recursive call receives the whole input again. The call
  never returns, in both implementations.
\<close>

theorem simplifyRDP_negative_epsilon_counterexample:
  "simplifyRDP [\<lparr>px = 0, py = 0\<rparr>, \<lparr>px = 1, py = 0\<rparr>, \<lparr>px = 2, py = 0\<rparr>] (- 1) = None
   \<and> simplifyRDP_AI [\<lparr>px = 0, py = 0\<rparr>, \<lparr>px = 1, py = 0\<rparr>, \<lparr>px = 2, py = 0\<rparr>] (- 1) = None"
proof -
  have "simplifyRDP collinear3 (- 1) = None"
    using simplifyRDP_collinear_no_result [of collinear3 "- 1"]
    by (cases "simplifyRDP collinear3 (- 1)") auto
  moreover have "simplifyRDP_AI collinear3 (- 1) = None"
    using simplifyRDP_AI_collinear_no_result [of collinear3 "- 1"]
    by (cases "simplifyRDP_AI collinear3 (- 1)") auto
  ultimately show ?thesis by (simp add: collinear3_def)
qed

text \<open>
  C3 (amended): for every non-empty point list, \<^verbatim>\<open>simplifyRDP\<close> (in both
  implementations) returns for every epsilon that is not negative, and for every epsilon
  a list it returns is non-empty, its first element is the first point of the input and
  its last element is the last point of the input.
\<close>

theorem simplifyRDP_keeps_endpoints:
  assumes "points \<noteq> []"
  shows "(0 \<le> epsilon \<longrightarrow>
            (\<exists>r. simplifyRDP points epsilon = Some r)
          \<and> (\<exists>r. simplifyRDP_AI points epsilon = Some r))
       \<and> (\<forall>r. simplifyRDP points epsilon = Some r \<longrightarrow>
              r \<noteq> [] \<and> hd r = hd points \<and> last r = last points)
       \<and> (\<forall>r. simplifyRDP_AI points epsilon = Some r \<longrightarrow>
              r \<noteq> [] \<and> hd r = hd points \<and> last r = last points)"
proof (intro conjI impI allI)
  assume "0 \<le> epsilon"
  then show "\<exists>r. simplifyRDP points epsilon = Some r"
    and "\<exists>r. simplifyRDP_AI points epsilon = Some r"
    using simplifyRDP_total simplifyRDP_AI_total by blast+
next
  fix r assume "simplifyRDP points epsilon = Some r"
  then have "keepsEnds points r" by (rule simplifyRDP_keepsEnds)
  then show "r \<noteq> []" "hd r = hd points" "last r = last points"
    using assms by (simp_all add: keepsEnds_def)
next
  fix r assume "simplifyRDP_AI points epsilon = Some r"
  then have "keepsEnds points r" by (rule simplifyRDP_AI_keepsEnds)
  then show "r \<noteq> []" "hd r = hd points" "last r = last points"
    using assms by (simp_all add: keepsEnds_def)
qed

theorem simplifyRDP_keeps_endpoints_witness:
  "[\<lparr>px = 0, py = 0\<rparr>, \<lparr>px = 1, py = 1\<rparr>, \<lparr>px = 2, py = 0\<rparr>] \<noteq> []
   \<and> (0::real) \<le> 1 / 2
   \<and> simplifyRDP [\<lparr>px = 0, py = 0\<rparr>, \<lparr>px = 1, py = 1\<rparr>, \<lparr>px = 2, py = 0\<rparr>] (1 / 2)
       = Some [\<lparr>px = 0, py = 0\<rparr>, \<lparr>px = 1, py = 1\<rparr>, \<lparr>px = 2, py = 0\<rparr>]
   \<and> (\<exists>r. simplifyRDP_AI [\<lparr>px = 0, py = 0\<rparr>, \<lparr>px = 1, py = 1\<rparr>, \<lparr>px = 2, py = 0\<rparr>] (1 / 2) = Some r
          \<and> hd r = \<lparr>px = 0, py = 0\<rparr> \<and> last r = \<lparr>px = 2, py = 0\<rparr>)"
proof -
  let ?L = "[\<lparr>px = 0, py = 0\<rparr>, \<lparr>px = 1, py = 1\<rparr>, \<lparr>px = 2, py = 0\<rparr>]"
  have ne: "?L \<noteq> []" by simp
  have e: "simplifyRDP ?L (1 / 2) = Some ?L"
    by (simp add: simplifyRDP.simps farthest_def perpDist_def hypot_axis upt_rec Let_def)
  have "\<exists>r. simplifyRDP_AI ?L (1 / 2) = Some r \<and> hd r = hd ?L \<and> last r = last ?L"
    using simplifyRDP_keeps_endpoints [OF ne, of "1 / 2"] by auto
  then show ?thesis using e by simp
qed

text \<open>
  C10: for every point list and every epsilon that is not negative, \<^verbatim>\<open>simplifyRDP\<close> (in
  both implementations) returns; and whenever it recurses (three or more points, and the
  largest distance found exceeds epsilon), the split index lies strictly between the first
  and the last index, so that each of the two slices passed to the recursive calls is
  strictly shorter than the input.
\<close>

theorem simplifyRDP_terminates:
  assumes "0 \<le> epsilon"
  shows "(\<exists>r. simplifyRDP points epsilon = Some r)
       \<and> (\<exists>r. simplifyRDP_AI points epsilon = Some r)
       \<and> (\<forall>dmax index.
             3 \<le> length points
           \<and> farthest (\<lambda>p. perpDist p (points ! 0) (points ! (length points - 1))) points
               = (dmax, index)
           \<and> dmax > epsilon \<longrightarrow>
             0 < index \<and> index < length points - 1
           \<and> length (take (index + 1) points) < length points
           \<and> length (drop index (take (length points - 1 + 1) points)) < length points)
       \<and> (\<forall>dmax index.
             3 \<le> length points
           \<and> farthest (\<lambda>p. perpendicularDistance p (points ! 0) (points ! (length points - 1))
                 (Some (sqrt ((px (points ! 0) - px (points ! (length points - 1)))\<^sup>2
                              + (py (points ! 0) - py (points ! (length points - 1)))\<^sup>2)))) points
               = (dmax, index)
           \<and> dmax > epsilon \<longrightarrow>
             0 < index \<and> index < length points - 1
           \<and> length (take (index + 1) points) < length points
           \<and> length (drop index points) < length points)"
proof -
  have split: "0 < index \<and> index < length points - 1
      \<and> length (take (index + 1) points) < length points
      \<and> length (drop index (take (length points - 1 + 1) points)) < length points
      \<and> length (drop index points) < length points"
    if "farthest d points = (dmax, index)" "dmax > epsilon" for d dmax index
  proof -
    have "0 < dmax" using that(2) assms by simp
    then have "1 \<le> index \<and> index < length points - 1"
      using farthest_range(3) [OF that(1)] by simp
    then show ?thesis by auto
  qed
  show ?thesis
    using simplifyRDP_total [OF assms] simplifyRDP_AI_total [OF assms] split
    by (intro conjI allI impI) blast+
qed

theorem simplifyRDP_terminates_witness:
  "(0::real) \<le> 1
   \<and> (\<exists>r. simplifyRDP [\<lparr>px = 0, py = 0\<rparr>, \<lparr>px = 1, py = 2\<rparr>, \<lparr>px = 2, py = 0\<rparr>] 1 = Some r)
   \<and> (\<exists>r. simplifyRDP_AI [\<lparr>px = 0, py = 0\<rparr>, \<lparr>px = 1, py = 2\<rparr>, \<lparr>px = 2, py = 0\<rparr>] 1 = Some r)
   \<and> farthest (\<lambda>p. perpDist p \<lparr>px = 0, py = 0\<rparr> \<lparr>px = 2, py = 0\<rparr>)
        [\<lparr>px = 0, py = 0\<rparr>, \<lparr>px = 1, py = 2\<rparr>, \<lparr>px = 2, py = 0\<rparr>] = (2, 1)"
proof -
  have f: "farthest (\<lambda>p. perpDist p \<lparr>px = 0, py = 0\<rparr> \<lparr>px = 2, py = 0\<rparr>)
        [\<lparr>px = 0, py = 0\<rparr>, \<lparr>px = 1, py = 2\<rparr>, \<lparr>px = 2, py = 0\<rparr>] = (2, 1)"
    by (simp add: farthest_def perpDist_def hypot_axis upt_rec Let_def)
  show ?thesis
    using f simplifyRDP_terminates
      [of 1 "[\<lparr>px = 0, py = 0\<rparr>, \<lparr>px = 1, py = 2\<rparr>, \<lparr>px = 2, py = 0\<rparr>]"]
    by simp
qed

subsection \<open>Convex hull: the argument is sorted in place\<close>

lemma sorted_insort_by:
  assumes tot: "\<And>a b. cmp a b \<le> 0 \<or> cmp b a \<le> 0"
    and tr: "\<And>a b c. cmp a b \<le> 0 \<Longrightarrow> cmp b c \<le> 0 \<Longrightarrow> cmp a c \<le> 0"
  shows "sorted_wrt (\<lambda>a b. cmp a b \<le> 0) bs \<Longrightarrow> sorted_wrt (\<lambda>a b. cmp a b \<le> 0) (insort_by cmp a bs)"
proof (induction bs)
  case Nil
  then show ?case by simp
next
  case (Cons b bs)
  show ?case
  proof (cases "cmp a b \<le> 0")
    case True
    then have "\<forall>x\<in>set bs. cmp a x \<le> 0" using Cons.prems tr by auto
    then show ?thesis using True Cons.prems by simp
  next
    case False
    then have "cmp b a \<le> 0" using tot by blast
    then show ?thesis using False Cons by (auto simp: set_insort_by)
  qed
qed

lemma sorted_sort_by:
  assumes tot: "\<And>a b. cmp a b \<le> 0 \<or> cmp b a \<le> 0"
    and tr: "\<And>a b c. cmp a b \<le> 0 \<Longrightarrow> cmp b c \<le> 0 \<Longrightarrow> cmp a c \<le> 0"
  shows "sorted_wrt (\<lambda>a b. cmp a b \<le> 0) (sort_by cmp xs)"
proof (induction xs)
  case Nil
  show ?case by (simp add: sort_by_def)
next
  case (Cons x xs)
  have "sort_by cmp (x # xs) = insort_by cmp x (sort_by cmp xs)" by (simp add: sort_by_def)
  then show ?case using sorted_insort_by [OF tot tr Cons] by simp
qed

lemma cmpLogic_lexLe: "(cmpLogic a b \<le> 0) = lexLe a b"
  by (auto simp: cmpLogic_def lexLe_def)

lemma cmpAI_lexLe: "(cmpAI a b \<le> 0) = lexLe a b"
  by (auto simp: cmpAI_def lexLe_def)

lemma lexLe_total: "lexLe a b \<or> lexLe b a"
  by (auto simp: lexLe_def)

lemma lexLe_trans: "lexLe a b \<Longrightarrow> lexLe b c \<Longrightarrow> lexLe a c"
  by (auto simp: lexLe_def)

lemma sorted_sort_by_cmpLogic: "sorted_wrt lexLe (sort_by cmpLogic xs)"
  using sorted_sort_by [of cmpLogic xs] lexLe_total lexLe_trans
  by (simp add: cmpLogic_lexLe)

lemma sorted_sort_by_cmpAI: "sorted_wrt lexLe (sort_by cmpAI xs)"
  using sorted_sort_by [of cmpAI xs] lexLe_total lexLe_trans
  by (simp add: cmpAI_lexLe)

text \<open>
  C9: \<^verbatim>\<open>convexHull\<close> (in both implementations) sorts its argument in place. After a call
  on a reference \<open>points\<close> to an array of three or more points, the array at that reference
  is a permutation of what it was, in ascending order by x with ties broken by y; the
  reference returned is a new one (the store has grown by one array, the hull), and every
  other array of the store is unchanged.
\<close>

theorem convexHull_sorts_in_place:
  assumes "points < length h" and "3 \<le> length (h ! points)"
  shows "sorted_wrt (\<lambda>p q. px p < px q \<or> (px p = px q \<and> py p \<le> py q))
           (fst (convexHull h points) ! points)
       \<and> mset (fst (convexHull h points) ! points) = mset (h ! points)
       \<and> snd (convexHull h points) = length h
       \<and> length (fst (convexHull h points)) = length h + 1
       \<and> (\<forall>b < length h. b \<noteq> points \<longrightarrow> fst (convexHull h points) ! b = h ! b)
       \<and> sorted_wrt (\<lambda>p q. px p < px q \<or> (px p = px q \<and> py p \<le> py q))
           (fst (convexHull_AI h points) ! points)
       \<and> mset (fst (convexHull_AI h points) ! points) = mset (h ! points)
       \<and> snd (convexHull_AI h points) = length h
       \<and> length (fst (convexHull_AI h points)) = length h + 1
       \<and> (\<forall>b < length h. b \<noteq> points \<longrightarrow> fst (convexHull_AI h points) ! b = h ! b)"
proof -
  have n: "\<not> length (h ! points) < 3" using assms(2) by simp
  have a: "fst (convexHull h points) ! points = sort_by cmpLogic (h ! points)"
    using assms(1) n by (simp add: convexHull_def Let_def nth_append)
  have b: "fst (convexHull_AI h points) ! points = sort_by cmpAI (h ! points)"
    using assms(1) n by (simp add: convexHull_AI_def Let_def nth_append)
  have c: "sorted_wrt lexLe = sorted_wrt (\<lambda>p q. px p < px q \<or> (px p = px q \<and> py p \<le> py q))"
    by (simp add: lexLe_def [abs_def])
  have s1: "sorted_wrt (\<lambda>p q. px p < px q \<or> (px p = px q \<and> py p \<le> py q))
           (fst (convexHull h points) ! points)"
    using sorted_sort_by_cmpLogic [of "h ! points"] by (simp only: a c)
  have s2: "sorted_wrt (\<lambda>p q. px p < px q \<or> (px p = px q \<and> py p \<le> py q))
           (fst (convexHull_AI h points) ! points)"
    using sorted_sort_by_cmpAI [of "h ! points"] by (simp only: b c)
  have m1: "mset (fst (convexHull h points) ! points) = mset (h ! points)"
    by (simp only: a mset_sort_by)
  have m2: "mset (fst (convexHull_AI h points) ! points) = mset (h ! points)"
    by (simp only: b mset_sort_by)
  have r1: "snd (convexHull h points) = length h" "length (fst (convexHull h points)) = length h + 1"
    "\<forall>b < length h. b \<noteq> points \<longrightarrow> fst (convexHull h points) ! b = h ! b"
    using n by (simp_all add: convexHull_def Let_def nth_append)
  have r2: "snd (convexHull_AI h points) = length h" "length (fst (convexHull_AI h points)) = length h + 1"
    "\<forall>b < length h. b \<noteq> points \<longrightarrow> fst (convexHull_AI h points) ! b = h ! b"
    using n by (simp_all add: convexHull_AI_def Let_def nth_append)
  show ?thesis
    by (intro conjI s1 s2 m1 m2 r1 r2)
qed

theorem convexHull_sorts_in_place_witness:
  "(0::nat) < length [[\<lparr>px = 2, py = 0\<rparr>, \<lparr>px = 0, py = 0\<rparr>, \<lparr>px = 1, py = 1\<rparr>, \<lparr>px = 1, py = 5\<rparr>, \<lparr>px = 0, py = 2\<rparr>]]
   \<and> 3 \<le> length ([[\<lparr>px = 2, py = 0\<rparr>, \<lparr>px = 0, py = 0\<rparr>, \<lparr>px = 1, py = 1\<rparr>, \<lparr>px = 1, py = 5\<rparr>, \<lparr>px = 0, py = 2\<rparr>]] ! 0)
   \<and> convexHull [[\<lparr>px = 2, py = 0\<rparr>, \<lparr>px = 0, py = 0\<rparr>, \<lparr>px = 1, py = 1\<rparr>, \<lparr>px = 1, py = 5\<rparr>, \<lparr>px = 0, py = 2\<rparr>]] 0
       = ([[\<lparr>px = 0, py = 0\<rparr>, \<lparr>px = 0, py = 2\<rparr>, \<lparr>px = 1, py = 1\<rparr>, \<lparr>px = 1, py = 5\<rparr>, \<lparr>px = 2, py = 0\<rparr>],
           [\<lparr>px = 0, py = 0\<rparr>, \<lparr>px = 2, py = 0\<rparr>, \<lparr>px = 1, py = 5\<rparr>, \<lparr>px = 0, py = 2\<rparr>]], 1)
   \<and> convexHull_AI [[\<lparr>px = 2, py = 0\<rparr>, \<lparr>px = 0, py = 0\<rparr>, \<lparr>px = 1, py = 1\<rparr>, \<lparr>px = 1, py = 5\<rparr>, \<lparr>px = 0, py = 2\<rparr>]] 0
       = ([[\<lparr>px = 0, py = 0\<rparr>, \<lparr>px = 0, py = 2\<rparr>, \<lparr>px = 1, py = 1\<rparr>, \<lparr>px = 1, py = 5\<rparr>, \<lparr>px = 2, py = 0\<rparr>],
           [\<lparr>px = 0, py = 0\<rparr>, \<lparr>px = 2, py = 0\<rparr>, \<lparr>px = 1, py = 5\<rparr>, \<lparr>px = 0, py = 2\<rparr>]], 1)
   \<and> snd (convexHull [[\<lparr>px = 2, py = 0\<rparr>, \<lparr>px = 0, py = 0\<rparr>, \<lparr>px = 1, py = 1\<rparr>, \<lparr>px = 1, py = 5\<rparr>, \<lparr>px = 0, py = 2\<rparr>]] 0)
       = length [[\<lparr>px = 2, py = 0\<rparr>, \<lparr>px = 0, py = 0\<rparr>, \<lparr>px = 1, py = 1\<rparr>, \<lparr>px = 1, py = 5\<rparr>, \<lparr>px = 0, py = 2\<rparr>]]"
proof -
  let ?h = "[[\<lparr>px = 2, py = 0\<rparr>, \<lparr>px = 0, py = 0\<rparr>, \<lparr>px = 1, py = 1\<rparr>, \<lparr>px = 1, py = 5\<rparr>, \<lparr>px = 0, py = 2\<rparr>]]"
  have h1: "(0::nat) < length ?h" by simp
  have h2: "3 \<le> length (?h ! 0)" by simp
  have e1: "convexHull ?h 0
       = ([[\<lparr>px = 0, py = 0\<rparr>, \<lparr>px = 0, py = 2\<rparr>, \<lparr>px = 1, py = 1\<rparr>, \<lparr>px = 1, py = 5\<rparr>, \<lparr>px = 2, py = 0\<rparr>],
           [\<lparr>px = 0, py = 0\<rparr>, \<lparr>px = 2, py = 0\<rparr>, \<lparr>px = 1, py = 5\<rparr>, \<lparr>px = 0, py = 2\<rparr>]], 1)"
    by (simp add: convexHull_def sort_by_def cmpLogic_def chain_def cross_def Let_def)
  have e2: "convexHull_AI ?h 0
       = ([[\<lparr>px = 0, py = 0\<rparr>, \<lparr>px = 0, py = 2\<rparr>, \<lparr>px = 1, py = 1\<rparr>, \<lparr>px = 1, py = 5\<rparr>, \<lparr>px = 2, py = 0\<rparr>],
           [\<lparr>px = 0, py = 0\<rparr>, \<lparr>px = 2, py = 0\<rparr>, \<lparr>px = 1, py = 5\<rparr>, \<lparr>px = 0, py = 2\<rparr>]], 1)"
    by (simp add: convexHull_AI_def sort_by_def cmpAI_def chain_def cross_def Let_def)
  have "snd (convexHull ?h 0) = length ?h"
    using convexHull_sorts_in_place [OF h1 h2] by blast
  then show ?thesis using h1 h2 e1 e2 by blast
qed

subsection \<open>Whole-frame scan\<close>

lemma foldl_countWhite:
  "foldl (\<lambda>whitePixels m. if m then whitePixels + 1 else whitePixels) n maskData
     = n + length (filter (\<lambda>b. b) maskData)"
  by (induction maskData arbitrary: n) simp_all

lemma countWhite_filter: "countWhite maskData = length (filter (\<lambda>b. b) maskData)"
  by (simp add: countWhite_def foldl_countWhite)

lemma toFixed1_near: "\<bar>toFixed1 v - v\<bar> \<le> 1 / 20"
proof -
  have a: "\<bar>of_int \<lfloor>w * 10 + 1 / 2\<rfloor> / 10 - w\<bar> \<le> 1 / 20" for w :: real
  proof -
    define n :: real where "n = of_int \<lfloor>w * 10 + 1 / 2\<rfloor>"
    have "n \<le> w * 10 + 1 / 2" unfolding n_def by (rule of_int_floor_le)
    moreover have "w * 10 + 1 / 2 < n + 1" unfolding n_def by linarith
    ultimately have "\<bar>n / 10 - w\<bar> \<le> 1 / 20" by linarith
    then show ?thesis by (simp only: n_def)
  qed
  show ?thesis
  proof (cases "\<bar>v\<bar> \<ge> 10 ^ 21")
    case True
    then show ?thesis by (simp add: toFixed1_def)
  next
    case big: False
    show ?thesis
    proof (cases "v < 0")
      case True
      have "\<bar>- (of_int \<lfloor>- v * 10 + 1 / 2\<rfloor> / 10) - v\<bar> = \<bar>of_int \<lfloor>(- v) * 10 + 1 / 2\<rfloor> / 10 - (- v)\<bar>"
        by (simp add: abs_minus_commute)
      then show ?thesis using a [of "- v"] big True by (simp add: toFixed1_def)
    next
      case False
      then show ?thesis using a [of v] big by (simp add: toFixed1_def)
    qed
  qed
qed

lemma toFixed1_zero: "toFixed1 0 = 0"
  by (simp add: toFixed1_def)

lemma scanFrame_cases:
  "\<exists>poly. scanFrame predictMask imageData =
       Some \<lparr>scanArea = toFixed1 (real (countWhite (predictMask imageData))
                  * (real (img_width imageData) / real MODEL_SIZE)
                  * (real (img_height imageData) / real MODEL_SIZE)),
             scanPolygon = poly\<rparr>
     \<and> (if countWhite (predictMask imageData) > 20
           \<and> extractEdgesFromMask (predictMask imageData) MODEL_SIZE MODEL_SIZE \<noteq> []
         then scanPipeline (predictMask imageData)
                (real (img_width imageData) / real MODEL_SIZE)
                (real (img_height imageData) / real MODEL_SIZE) = Some poly
         else poly = [])"
proof (cases "countWhite (predictMask imageData) > 20
           \<and> extractEdgesFromMask (predictMask imageData) MODEL_SIZE MODEL_SIZE \<noteq> []")
  case True
  have tot: "\<exists>r. simplifyRDP_AI X 3 = Some r" for X
    using simplifyRDP_AI_total [of 3 X] by auto
  have "\<exists>poly. scanPipeline (predictMask imageData)
                (real (img_width imageData) / real MODEL_SIZE)
                (real (img_height imageData) / real MODEL_SIZE) = Some poly"
    unfolding scanPipeline_def Let_def split_def by (rule tot)
  then obtain poly where p: "scanPipeline (predictMask imageData)
                (real (img_width imageData) / real MODEL_SIZE)
                (real (img_height imageData) / real MODEL_SIZE) = Some poly"
    by blast
  then have "scanFrame predictMask imageData =
       Some \<lparr>scanArea = toFixed1 (real (countWhite (predictMask imageData))
                  * (real (img_width imageData) / real MODEL_SIZE)
                  * (real (img_height imageData) / real MODEL_SIZE)),
             scanPolygon = poly\<rparr>"
    using True by (simp add: scanFrame_def scanPipeline_def Let_def split_def)
  then show ?thesis using True p by simp
next
  case False
  then have "scanFrame predictMask imageData =
       Some \<lparr>scanArea = toFixed1 (real (countWhite (predictMask imageData))
                  * (real (img_width imageData) / real MODEL_SIZE)
                  * (real (img_height imageData) / real MODEL_SIZE)),
             scanPolygon = []\<rparr>"
    by (auto simp: scanFrame_def Let_def)
  then show ?thesis using False by (intro exI [of _ "[]"]) (simp only: if_False simp_thms)
qed

text \<open>
  C4, as the claim states it, fails on the area: \<^verbatim>\<open>scanFrame\<close> returns
  \<^verbatim>\<open>parseFloat(realArea.toFixed(1))\<close>, the product rounded to one decimal place. For a
  100 x 100 frame and a mask with a single "on" pixel the product is
  \<open>1 * (100 / 256) * (100 / 256) = 0.152587890625\<close>, and the area returned is 0.2.
\<close>

theorem scanFrame_rounding_counterexample:
  "scanFrame (fixedMask (True # replicate 65535 False))
       \<lparr>img_width = 100, img_height = 100, img_data = replicate 40000 0\<rparr>
     = Some \<lparr>scanArea = 1 / 5, scanPolygon = []\<rparr>
   \<and> countWhite (True # replicate 65535 False) = 1
   \<and> (1 / 5 :: real) \<noteq> 1 * (100 / 256) * (100 / 256)"
proof -
  have c: "countWhite (True # replicate 65535 False) = 1"
    by (simp add: countWhite_filter)
  have "scanFrame (fixedMask (True # replicate 65535 False))
       \<lparr>img_width = 100, img_height = 100, img_data = replicate 40000 0\<rparr>
     = Some \<lparr>scanArea = 1 / 5, scanPolygon = []\<rparr>"
    by (simp add: scanFrame_def fixedMask_def c MODEL_SIZE_def toFixed1_def Let_def)
  then show ?thesis using c by simp
qed

text \<open>
  C4 (amended): for every frame whose binarised mask has been computed, \<^verbatim>\<open>scanFrame\<close>
  returns, and its area is the count of "on" mask pixels multiplied by
  \<open>scaleX * scaleY\<close> and rounded to one decimal place (so within 0.05 of the product, and
  never derived from the polygon). The polygon is non-empty only when the count exceeds
  20; with a count of 20 or less it is the empty list. With a count above 20 and at
  least one edge point, the polygon is the result of edge extraction, then hull, then
  scaling, then simplification with epsilon 3. An all-zero mask gives area 0 and the
  empty polygon.
\<close>

theorem scanFrame_area_and_polygon:
  "\<exists>r. scanFrame predictMask imageData = Some r
     \<and> scanArea r = toFixed1 (real (length (filter (\<lambda>b. b) (predictMask imageData)))
                        * (real (img_width imageData) / 256) * (real (img_height imageData) / 256))
     \<and> \<bar>scanArea r - real (length (filter (\<lambda>b. b) (predictMask imageData)))
                        * (real (img_width imageData) / 256) * (real (img_height imageData) / 256)\<bar>
           \<le> 1 / 20
     \<and> (scanPolygon r \<noteq> [] \<longrightarrow> 20 < length (filter (\<lambda>b. b) (predictMask imageData)))
     \<and> (length (filter (\<lambda>b. b) (predictMask imageData)) \<le> 20 \<longrightarrow> scanPolygon r = [])
     \<and> (20 < length (filter (\<lambda>b. b) (predictMask imageData))
          \<and> extractEdgesFromMask (predictMask imageData) 256 256 \<noteq> [] \<longrightarrow>
            simplifyRDP_AI
              (map (\<lambda>p. \<lparr>px = px p * (real (img_width imageData) / 256),
                         py = py p * (real (img_height imageData) / 256)\<rparr>)
                 (fst (convexHull_AI [extractEdgesFromMask (predictMask imageData) 256 256] 0)
                    ! snd (convexHull_AI [extractEdgesFromMask (predictMask imageData) 256 256] 0)))
              3 = Some (scanPolygon r))
     \<and> ((\<forall>b \<in> set (predictMask imageData). \<not> b) \<longrightarrow> scanArea r = 0 \<and> scanPolygon r = [])"
proof -
  let ?m = "predictMask imageData"
  let ?c = "length (filter (\<lambda>b. b) ?m)"
  let ?sx = "real (img_width imageData) / 256"
  let ?sy = "real (img_height imageData) / 256"
  have "\<exists>poly. scanFrame predictMask imageData =
       Some \<lparr>scanArea = toFixed1 (real ?c * ?sx * ?sy), scanPolygon = poly\<rparr>
     \<and> (if ?c > 20 \<and> extractEdgesFromMask ?m 256 256 \<noteq> []
         then scanPipeline ?m ?sx ?sy = Some poly else poly = [])"
    using scanFrame_cases [of predictMask imageData]
    by (simp only: countWhite_filter MODEL_SIZE_def of_nat_numeral)
  then obtain poly where r: "scanFrame predictMask imageData =
       Some \<lparr>scanArea = toFixed1 (real ?c * ?sx * ?sy), scanPolygon = poly\<rparr>"
    and p: "if ?c > 20 \<and> extractEdgesFromMask ?m 256 256 \<noteq> []
         then scanPipeline ?m ?sx ?sy = Some poly else poly = []"
    by blast
  let ?r = "\<lparr>scanArea = toFixed1 (real ?c * ?sx * ?sy), scanPolygon = poly\<rparr>"
  have a1: "scanArea ?r = toFixed1 (real ?c * ?sx * ?sy)" by simp
  have a2: "\<bar>scanArea ?r - real ?c * ?sx * ?sy\<bar> \<le> 1 / 20"
    using toFixed1_near [of "real ?c * ?sx * ?sy"] by simp
  have a3: "scanPolygon ?r \<noteq> [] \<longrightarrow> 20 < ?c"
    using p by (auto split: if_splits)
  have a4: "?c \<le> 20 \<longrightarrow> scanPolygon ?r = []"
    using p by (auto split: if_splits)
  have a5: "20 < ?c \<and> extractEdgesFromMask ?m 256 256 \<noteq> [] \<longrightarrow>
            simplifyRDP_AI
              (map (\<lambda>p. \<lparr>px = px p * ?sx, py = py p * ?sy\<rparr>)
                 (fst (convexHull_AI [extractEdgesFromMask ?m 256 256] 0)
                    ! snd (convexHull_AI [extractEdgesFromMask ?m 256 256] 0)))
              3 = Some (scanPolygon ?r)"
    using p by (auto simp: scanPipeline_def MODEL_SIZE_def Let_def split_def split: if_splits)
  have a6: "(\<forall>b \<in> set ?m. \<not> b) \<longrightarrow> scanArea ?r = 0 \<and> scanPolygon ?r = []"
  proof
    assume "\<forall>b \<in> set ?m. \<not> b"
    then have "filter (\<lambda>b. b) ?m = []" by (simp add: filter_empty_conv)
    then have z: "?c = 0" by simp
    then have "poly = []" using p by (simp split: if_splits)
    then show "scanArea ?r = 0 \<and> scanPolygon ?r = []"
      using z by (simp add: toFixed1_zero)
  qed
  show ?thesis
    by (rule exI [of _ ?r]) (intro conjI r a1 a2 a3 a4 a5 a6)
qed

theorem scanFrame_area_and_polygon_witness:
  "scanFrame (fixedMask (replicate 65536 False))
       \<lparr>img_width = 100, img_height = 100, img_data = replicate 40000 0\<rparr>
     = Some \<lparr>scanArea = 0, scanPolygon = []\<rparr>"
proof -
  have "\<forall>b \<in> set (fixedMask (replicate 65536 False)
       \<lparr>img_width = 100, img_height = 100, img_data = replicate 40000 0\<rparr>). \<not> b"
    by (simp add: fixedMask_def)
  then show ?thesis
    using scanFrame_area_and_polygon [of "fixedMask (replicate 65536 False)"
        "\<lparr>img_width = 100, img_height = 100, img_data = replicate 40000 0\<rparr>"]
    by (metis (full_types) ScanResult.surjective old.unit.exhaust)
qed

subsection \<open>Region growing: the seed search\<close>

lemma upto04: "[0..4::int] = [0, 1, 2, 3, 4]"
  by (simp add: upto_rec1)

lemmas fill_eval = floodFill_def pixelMatch_def colorMatch_def byteAt_def numAt_def getIndex_def
  visitNeighbor_def setAdd_def Let_def

text \<open>
  C1: the seed (2, 2) of the 5 x 5 image is black, and the white pixel at (0, 1) lies in
  the 5 x 5 window around the seed and matches the white target with tolerance 0. The
  claim has the search reach it and the region be non-empty. \<^verbatim>\<open>floodFill\<close> returns the
  empty region: the queue already holds the seed, so \<^verbatim>\<open>if (queue.length > 0) break\<close>
  leaves the outer loop after the first row \<open>y = 0\<close> of the window, and the rows below
  are never searched.
\<close>

theorem floodFill_misses_window_pixel:
  "floodFill missedImage 5 5 (2, 2) [255, 255, 255] 0 = []
   \<and> pixelMatch missedImage 5 [255, 255, 255] 0 0 1
   \<and> \<not> pixelMatch missedImage 5 [255, 255, 255] 0 2 2"
proof -
  have a: "pixelMatch missedImage 5 [255, 255, 255] 0 0 1"
    by (simp add: pixelMatch_def colorMatch_def byteAt_def numAt_def getIndex_def missedImage_def)
  have b: "\<not> pixelMatch missedImage 5 [255, 255, 255] 0 2 2"
    by (simp add: pixelMatch_def colorMatch_def byteAt_def numAt_def getIndex_def missedImage_def)
  have c: "floodFill missedImage 5 5 (2, 2) [255, 255, 255] 0 = []"
    by (simp add: fill_eval missedImage_def upto04)
  show ?thesis using a b c by blast
qed

end
